theory Spec2Isabelle
  imports Main "HOL-Library.Word"
begin

unbundle bit_operations_syntax

section \<open>Data model of \<^verbatim>\<open>inotify/adapters.py\<close>\<close>

text \<open>
  Python \<^verbatim>\<open>bytes\<close> are lists of 8-bit words. A Python \<^verbatim>\<open>str\<close> is a \<open>string\<close>; the
  watch descriptors handed out by the kernel are Python integers (\<open>int\<close>); the event
  masks are the 32-bit values of the kernel interface.
\<close>

type_synonym byte = "8 word"
type_synonym bytes = "byte list"

text \<open>
  \<^verbatim>\<open>_INOTIFY_EVENT = namedtuple("_INOTIFY_EVENT", ["wd", "mask", "cookie", "len"])\<close>,
  filled by \<^verbatim>\<open>struct.unpack("iIII", ...)\<close>: \<open>wd\<close> is signed, the other three fields are
  unsigned 32-bit values.
\<close>

record INOTIFY_EVENT =
  wd :: int
  mask :: "32 word"
  cookie :: "32 word"
  len :: nat

text \<open>The tuple \<^verbatim>\<open>(header, type_names, path, filename)\<close> that the generators yield.\<close>

type_synonym event = "INOTIFY_EVENT \<times> string list \<times> string \<times> string"

definition ev_header :: "event \<Rightarrow> INOTIFY_EVENT" where
  "ev_header e = fst e"

definition ev_type_names :: "event \<Rightarrow> string list" where
  "ev_type_names e = fst (snd e)"

definition ev_path :: "event \<Rightarrow> string" where
  "ev_path e = fst (snd (snd e))"

definition ev_filename :: "event \<Rightarrow> string" where
  "ev_filename e = snd (snd (snd e))"

text \<open>Every exception the modelled code can raise or let through.\<close>

datatype error =
    AssertionError
  | KeyError
  | UnicodeDecodeError
  | InotifyError
  | IOError int
  | TerminalEventException string event

datatype 'a result = Ok 'a | Raise error

text \<open>
  The third argument \<^verbatim>\<open>superficial\<close> of the removal methods is compared by identity
  with \<^verbatim>\<open>None\<close> and with \<^verbatim>\<open>False\<close> only, so three values describe it: \<^verbatim>\<open>None\<close>,
  \<^verbatim>\<open>False\<close>, and \<^verbatim>\<open>True\<close> (any other object behaves as \<^verbatim>\<open>True\<close> does).
\<close>

datatype superficial = Sup_None | Sup_False | Sup_True

text \<open>
  Calls that leave the process, each with the answer it got. The list of calls made so
  far is kept in the state: a call that is not made leaves the list as it was.
\<close>

datatype oscall =
    Inotify_add_watch string "32 word" "int option"
  | Inotify_rm_watch int bool
  | Path_exists string bool
  | Time int

text \<open>
  What the code uses and \<^verbatim>\<open>adapters.py\<close> does not define: the constants and the lookup
  table of \<^verbatim>\<open>inotify.constants\<close>, the system calls of \<^verbatim>\<open>inotify.calls\<close>,
  \<^verbatim>\<open>os.path.exists\<close>, \<^verbatim>\<open>time.time\<close> and the UTF-8 decoder. They are parameters. An answer
  from outside the process may depend on every call made before it.
  \<^item> \<open>MASK_LOOKUP_COMB m = None\<close> stands for the \<^verbatim>\<open>KeyError\<close> of the table;
  \<^item> \<open>inotify_add_watch\<close> answers \<open>None\<close> where \<^verbatim>\<open>inotify.calls\<close> raises \<^verbatim>\<open>InotifyError\<close>;
  \<^item> \<open>inotify_rm_watch\<close> answers \<open>False\<close> where it raises \<^verbatim>\<open>InotifyError\<close>;
  \<^item> \<open>utf8_decode\<close> answers \<open>None\<close> where \<^verbatim>\<open>bytes.decode("utf8")\<close> raises.
  The single inotify descriptor \<^verbatim>\<open>self.__inotify_fd\<close> is the implicit first argument of
  the two system calls. Clock readings are integers in a fixed unit of time.
\<close>

record env =
  IN_ISDIR :: "32 word"
  IN_CREATE :: "32 word"
  IN_MOVED_TO :: "32 word"
  IN_DELETE :: "32 word"
  IN_MOVED_FROM :: "32 word"
  MASK_LOOKUP_COMB :: "32 word \<Rightarrow> string list option"
  inotify_add_watch :: "oscall list \<Rightarrow> string \<Rightarrow> 32 word \<Rightarrow> int option"
  inotify_rm_watch :: "oscall list \<Rightarrow> int \<Rightarrow> bool"
  os_path_exists :: "oscall list \<Rightarrow> string \<Rightarrow> bool"
  time_time :: "oscall list \<Rightarrow> int"
  utf8_decode :: "bytes \<Rightarrow> string option"

text \<open>
  The fields of an \<^verbatim>\<open>Inotify\<close> object (\<^verbatim>\<open>__watches\<close>, \<^verbatim>\<open>__watches_r\<close>, \<^verbatim>\<open>__buffer\<close>,
  \<^verbatim>\<open>__last_success_return\<close>), the calls made so far, and \<^verbatim>\<open>last_hit_s\<close>, the local
  variable of \<^verbatim>\<open>event_gen\<close> that lives across the suspensions of the generator.
\<close>

record inotify =
  watches :: "string \<rightharpoonup> int"
  watches_r :: "int \<rightharpoonup> string"
  buffer :: bytes
  last_success_return :: "(string \<times> event) option"
  oscalls :: "oscall list"
  last_hit_s :: int

text \<open>\<^verbatim>\<open>Inotify.__init__\<close> before its loop over \<^verbatim>\<open>paths\<close>.\<close>

definition new_inotify :: inotify where
  "new_inotify =
     \<lparr>watches = Map.empty, watches_r = Map.empty, buffer = [],
      last_success_return = None, oscalls = [], last_hit_s = 0\<rparr>"

section \<open>The watch registry\<close>

text \<open>\<^verbatim>\<open>Inotify.add_watch\<close>; the result \<open>Ok None\<close> is the bare \<^verbatim>\<open>return\<close>.\<close>

definition add_watch :: "env \<Rightarrow> string \<Rightarrow> 32 word \<Rightarrow> inotify \<Rightarrow> int option result \<times> inotify" where
  "add_watch E path_unicode m st =
     (if path_unicode \<in> dom (watches st) then (Ok None, st)
      else
        let r = inotify_add_watch E (oscalls st) path_unicode m;
            st1 = st\<lparr>oscalls := oscalls st @ [Inotify_add_watch path_unicode m r]\<rparr>
        in case r of
             None \<Rightarrow> (Raise InotifyError, st1)
           | Some w \<Rightarrow>
               (Ok (Some w),
                st1\<lparr>watches := (watches st1)(path_unicode \<mapsto> w),
                    watches_r := (watches_r st1)(w \<mapsto> path_unicode)\<rparr>))"

text \<open>
  \<^verbatim>\<open>Inotify._remove_watch\<close>. Each \<^verbatim>\<open>del\<close> raises \<^verbatim>\<open>KeyError\<close> on a missing key; the first
  deletion stays done when the second one raises, and both stay done when the system
  call raises.
\<close>

definition remove_watch_inner ::
    "env \<Rightarrow> int \<Rightarrow> string \<Rightarrow> superficial \<Rightarrow> inotify \<Rightarrow> unit result \<times> inotify" where
  "remove_watch_inner E w path superficial st =
     (let (r, st2) =
        (if superficial \<noteq> Sup_None then
           (if path \<notin> dom (watches st) then (Raise KeyError, st)
            else
              let st1 = st\<lparr>watches := (watches st)(path := None)\<rparr>
              in if w \<notin> dom (watches_r st1) then (Raise KeyError, st1)
                 else (Ok (), st1\<lparr>watches_r := (watches_r st1)(w := None)\<rparr>))
         else (Ok (), st))
      in case r of
           Raise err \<Rightarrow> (Raise err, st2)
         | Ok u \<Rightarrow>
             if superficial \<noteq> Sup_False then (Ok (), st2)
             else
               let ok = inotify_rm_watch E (oscalls st2) w;
                   st3 = st2\<lparr>oscalls := oscalls st2 @ [Inotify_rm_watch w ok]\<rparr>
               in if ok then (Ok (), st3) else (Raise InotifyError, st3))"

text \<open>\<^verbatim>\<open>Inotify.remove_watch\<close>.\<close>

definition remove_watch :: "env \<Rightarrow> string \<Rightarrow> superficial \<Rightarrow> inotify \<Rightarrow> unit result \<times> inotify" where
  "remove_watch E path superficial st =
     (case watches st path of
        None \<Rightarrow> (Ok (), st)
      | Some w \<Rightarrow> remove_watch_inner E w path superficial st)"

text \<open>\<^verbatim>\<open>Inotify.remove_watch_with_id\<close>.\<close>

definition remove_watch_with_id :: "env \<Rightarrow> int \<Rightarrow> superficial \<Rightarrow> inotify \<Rightarrow> unit result \<times> inotify" where
  "remove_watch_with_id E w superficial st =
     (case watches_r st w of
        None \<Rightarrow> (Ok (), st)
      | Some path \<Rightarrow> remove_watch_inner E w path superficial st)"

text \<open>\<^verbatim>\<open>Inotify._get_event_names\<close>: \<open>None\<close> is the \<^verbatim>\<open>AssertionError\<close>.\<close>

definition get_event_names :: "env \<Rightarrow> 32 word \<Rightarrow> string list option" where
  "get_event_names E event_type = MASK_LOOKUP_COMB E event_type"

section \<open>The event decoder\<close>

text \<open>\<^verbatim>\<open>_STRUCT_HEADER_LENGTH = struct.calcsize("iIII")\<close>: four fields of four bytes.\<close>

definition STRUCT_HEADER_LENGTH :: nat where
  "STRUCT_HEADER_LENGTH = 16"

text \<open>
  One 32-bit field of \<^verbatim>\<open>struct.unpack\<close>. The format has no byte-order prefix, so the
  order is the machine's; the model takes the little-endian order of the usual Linux
  hosts.
\<close>

definition le32 :: "bytes \<Rightarrow> 32 word" where
  "le32 bs = word_of_nat (foldr (\<lambda>b acc. unat b + 256 * acc) bs 0)"

text \<open>\<^verbatim>\<open>_INOTIFY_EVENT(*struct.unpack("iIII", peek_slice))\<close>.\<close>

definition unpack_header :: "bytes \<Rightarrow> INOTIFY_EVENT" where
  "unpack_header peek_slice =
     \<lparr>wd = sint (le32 (take 4 peek_slice)),
      mask = le32 (take 4 (drop 4 peek_slice)),
      cookie = le32 (take 4 (drop 8 peek_slice)),
      len = unat (le32 (take 4 (drop 12 peek_slice)))\<rparr>"

text \<open>\<^verbatim>\<open>filename.rstrip(b"\0")\<close>.\<close>

definition rstrip_nul :: "bytes \<Rightarrow> bytes" where
  "rstrip_nul bs = rev (dropWhile (\<lambda>b. b = 0) (rev bs))"

text \<open>
  One pass through the body of the \<^verbatim>\<open>while 1\<close> loop of \<^verbatim>\<open>_handle_inotify_event\<close>, from
  its first line to the \<^verbatim>\<open>yield\<close>: the pass returns, raises, consumes a record of an
  unknown watch descriptor without yielding, or yields an event.
\<close>

datatype decode_result = Dec_Return | Dec_Raise error | Dec_Skip | Dec_Yield event

definition decode_one :: "env \<Rightarrow> inotify \<Rightarrow> decode_result \<times> inotify" where
  "decode_one E st =
     (let buf_length = length (buffer st)
      in if buf_length < STRUCT_HEADER_LENGTH then (Dec_Return, st)
         else
           let peek_slice = take STRUCT_HEADER_LENGTH (buffer st);
               header = unpack_header peek_slice
           in case get_event_names E (mask header) of
                None \<Rightarrow> (Dec_Raise AssertionError, st)
              | Some type_names \<Rightarrow>
                  (let event_length = STRUCT_HEADER_LENGTH + len header
                   in if buf_length < event_length then (Dec_Return, st)
                      else
                        let filename =
                              drop STRUCT_HEADER_LENGTH (take event_length (buffer st));
                            filename_bytes = rstrip_nul filename;
                            st1 = st\<lparr>buffer := drop event_length (buffer st)\<rparr>
                        in (case watches_r st1 (wd header) of
                              None \<Rightarrow> (Dec_Skip, st1)
                            | Some path \<Rightarrow>
                                (case utf8_decode E filename_bytes of
                                   None \<Rightarrow> (Dec_Raise UnicodeDecodeError, st1)
                                 | Some filename_unicode \<Rightarrow>
                                     (Dec_Yield (header, type_names, path, filename_unicode),
                                      st1)))))"

lemma decode_one_consumes:
  "decode_one E st = (r, st1) \<Longrightarrow> r = Dec_Skip \<or> r = Dec_Yield e \<Longrightarrow>
     length (buffer st1) < length (buffer st)"
  by (auto simp: decode_one_def Let_def STRUCT_HEADER_LENGTH_def
           split: if_splits option.splits)

text \<open>
  What a \<^verbatim>\<open>next\<close> on the generator gives.
\<close>

datatype gen_result = Gen_Stop | Gen_Raise error | Gen_Yield event

text \<open>
  The generator from a point at the top of its loop to its next \<^verbatim>\<open>yield\<close>, \<^verbatim>\<open>return\<close>,
  \<^verbatim>\<open>break\<close> or exception. After a record that yields nothing, the loop goes on only if
  a header's worth of bytes is left (the \<^verbatim>\<open>break\<close> at the bottom of the loop).
\<close>

function next_event :: "env \<Rightarrow> inotify \<Rightarrow> gen_result \<times> inotify" where
  "next_event E st =
     (case decode_one E st of
        (Dec_Return, st1) \<Rightarrow> (Gen_Stop, st1)
      | (Dec_Raise err, st1) \<Rightarrow> (Gen_Raise err, st1)
      | (Dec_Yield e, st1) \<Rightarrow> (Gen_Yield e, st1)
      | (Dec_Skip, st1) \<Rightarrow>
          if length (buffer st1) < STRUCT_HEADER_LENGTH then (Gen_Stop, st1)
          else next_event E st1)"
  by pat_completeness auto
termination
  by (relation "measure (\<lambda>(E, st). length (buffer st))")
     (auto dest: decode_one_consumes [OF sym])

declare next_event.simps [simp del]

lemma next_event_yield_consumes:
  "next_event E st = (Gen_Yield e, st1) \<Longrightarrow> length (buffer st1) < length (buffer st)"
proof (induction E st arbitrary: st1 rule: next_event.induct)
  case (1 E st)
  obtain d st0 where d: "decode_one E st = (d, st0)"
    by (cases "decode_one E st")
  show ?case
  proof (cases "d = Dec_Skip \<and> \<not> length (buffer st0) < STRUCT_HEADER_LENGTH")
    case True
    with "1.prems" d have "next_event E st0 = (Gen_Yield e, st1)"
      by (simp add: next_event.simps [of E st])
    with "1.IH" [OF d [symmetric]] True decode_one_consumes [OF d, of e] show ?thesis
      by fastforce
  next
    case False
    with "1.prems" d decode_one_consumes [OF d, of e] show ?thesis
      by (auto simp: next_event.simps [of E st] split: decode_result.splits if_splits)
  qed
qed

text \<open>
  The generator run to its end by a consumer that only collects what is yielded and does
  not touch the object: the events in the order of their \<^verbatim>\<open>yield\<close>, how the generator
  ended, and the state it left. After each \<^verbatim>\<open>yield\<close> comes the test at the bottom of the
  loop.
\<close>

function run_generator :: "env \<Rightarrow> inotify \<Rightarrow> event list \<times> unit result \<times> inotify" where
  "run_generator E st =
     (case next_event E st of
        (Gen_Stop, st1) \<Rightarrow> ([], Ok (), st1)
      | (Gen_Raise err, st1) \<Rightarrow> ([], Raise err, st1)
      | (Gen_Yield e, st1) \<Rightarrow>
          if length (buffer st1) < STRUCT_HEADER_LENGTH then ([e], Ok (), st1)
          else
            let (es, r, st2) = run_generator E st1
            in (e # es, r, st2))"
  by pat_completeness auto
termination
  by (relation "measure (\<lambda>(E, st). length (buffer st))")
     (auto dest: next_event_yield_consumes [OF sym])

declare run_generator.simps [simp del]

text \<open>
  \<^verbatim>\<open>_handle_inotify_event\<close> on the bytes \<open>b\<close> that \<^verbatim>\<open>os.read\<close> returned: an empty read
  returns at once, otherwise the bytes are appended to the buffer and the loop runs.
\<close>

definition handle_inotify_event ::
    "env \<Rightarrow> bytes \<Rightarrow> inotify \<Rightarrow> event list \<times> unit result \<times> inotify" where
  "handle_inotify_event E b st =
     (if b = [] then ([], Ok (), st)
      else run_generator E (st\<lparr>buffer := buffer st @ b\<rparr>))"

text \<open>
  The decoder fed one read after the other, the retained buffer going from each call to
  the next; an exception ends the feeding, as it ends the stream that does the reads.
\<close>

fun feed :: "env \<Rightarrow> bytes list \<Rightarrow> inotify \<Rightarrow> event list \<times> unit result \<times> inotify" where
  "feed E [] st = ([], Ok (), st)"
| "feed E (b # bs) st =
     (case handle_inotify_event E b st of
        (es, Raise err, st1) \<Rightarrow> (es, Raise err, st1)
      | (es, Ok u, st1) \<Rightarrow>
          let (es', r, st2) = feed E bs st1
          in (es @ es', r, st2))"

section \<open>The event source\<close>

text \<open>
  The keyword arguments of \<^verbatim>\<open>Inotify.event_gen\<close>. The code tests the filter's answer with
  \<^verbatim>\<open>is False\<close> only, so the predicate of the model answers \<open>False\<close> exactly where the
  Python predicate returns the object \<^verbatim>\<open>False\<close>; \<open>yield_nones\<close> is \<open>True\<close> exactly for
  the object \<^verbatim>\<open>True\<close>. The predicate is taken to have no effect of its own.
\<close>

record gen_params =
  timeout_s :: "int option"
  yield_nones :: bool
  filter_predicate :: "(string \<Rightarrow> event \<Rightarrow> bool) option"
  terminal_events :: "string list"

text \<open>\<^verbatim>\<open>_DEFAULT_TERMINAL_EVENTS\<close>.\<close>

definition DEFAULT_TERMINAL_EVENTS :: "string list" where
  "DEFAULT_TERMINAL_EVENTS = [''IN_Q_OVERFLOW'', ''IN_UNMOUNT'']"

text \<open>\<^verbatim>\<open>errno.EINTR\<close>.\<close>

definition EINTR :: int where
  "EINTR = 4"

text \<open>One reading of \<^verbatim>\<open>time.time()\<close>.\<close>

definition read_clock :: "env \<Rightarrow> inotify \<Rightarrow> int \<times> inotify" where
  "read_clock E st =
     (let now = time_time E (oscalls st)
      in (now, st\<lparr>oscalls := oscalls st @ [Time now]\<rparr>))"

text \<open>
  \<^verbatim>\<open>filter_predicate is not None and filter_predicate(type_name, e) is False\<close>.
\<close>

definition filter_rejects :: "gen_params \<Rightarrow> string \<Rightarrow> event \<Rightarrow> bool" where
  "filter_rejects P type_name e =
     (case filter_predicate P of
        None \<Rightarrow> False
      | Some f \<Rightarrow> f type_name e = False)"

text \<open>
  The loop \<^verbatim>\<open>for type_name in type_names\<close> of \<^verbatim>\<open>event_gen\<close>: it ends in the \<^verbatim>\<open>return\<close>
  of the filter, in the \<^verbatim>\<open>raise\<close> of a terminal event, or falls through to the \<^verbatim>\<open>yield\<close>.
\<close>

datatype verdict = Deliver | Filter_stop string | Terminal string

fun check_type_names :: "gen_params \<Rightarrow> event \<Rightarrow> string list \<Rightarrow> verdict" where
  "check_type_names P e [] = Deliver"
| "check_type_names P e (type_name # rest) =
     (if filter_rejects P type_name e then Filter_stop type_name
      else if type_name \<in> set (terminal_events P) then Terminal type_name
      else check_type_names P e rest)"

text \<open>
  What a generator yields: an event, or \<^verbatim>\<open>None\<close>. The code that consumes the generator
  runs while the generator is suspended at a \<^verbatim>\<open>yield\<close>; it may raise, and it may change
  the object through the public methods, which leave the buffer, the recorded stop and
  the local variables of the generator alone.
\<close>

type_synonym item = "event option"
type_synonym consumer = "item \<Rightarrow> inotify \<Rightarrow> unit result \<times> inotify"

definition consume :: "consumer \<Rightarrow> item \<Rightarrow> inotify \<Rightarrow> unit result \<times> inotify" where
  "consume k x st =
     (let (r, st1) = k x st
      in (r, st1\<lparr>buffer := buffer st, last_success_return := last_success_return st,
                  last_hit_s := last_hit_s st\<rparr>))"

text \<open>A consumer that does nothing with what it gets.\<close>

definition plain_consumer :: consumer where
  "plain_consumer x st = (Ok (), st)"

text \<open>
  How a loop of \<^verbatim>\<open>event_gen\<close> stands: it goes on, it left by the \<^verbatim>\<open>break\<close> of the
  time-out, it left by the \<^verbatim>\<open>return\<close> of the filter, the generator raised, or the
  consumer raised while the generator was suspended.
\<close>

datatype status = Running | Timed_out | Filter_stopped | Raised error | Consumer_raised error

text \<open>
  The loop \<^verbatim>\<open>for (header, type_names, path, filename) in self._handle_inotify_event(fd)\<close>,
  the decoding generator already started: the items yielded, how the loop stands after
  it, and the state.
\<close>

function for_decoded ::
    "env \<Rightarrow> gen_params \<Rightarrow> consumer \<Rightarrow> inotify \<Rightarrow> item list \<times> status \<times> inotify" where
  "for_decoded E P k st =
     (case next_event E st of
        (Gen_Stop, st1) \<Rightarrow> ([], Running, st1)
      | (Gen_Raise err, st1) \<Rightarrow> ([], Raised err, st1)
      | (Gen_Yield e, st1) \<Rightarrow>
          (let (now, st2) = read_clock E st1;
               st3 = st2\<lparr>last_hit_s := now\<rparr>
           in case check_type_names P e (ev_type_names e) of
                Filter_stop type_name \<Rightarrow>
                  ([], Filter_stopped, st3\<lparr>last_success_return := Some (type_name, e)\<rparr>)
              | Terminal type_name \<Rightarrow>
                  ([], Raised (TerminalEventException type_name e), st3)
              | Deliver \<Rightarrow>
                  (case consume k (Some e) st3 of
                     (Raise err, st4) \<Rightarrow> ([Some e], Consumer_raised err, st4)
                   | (Ok u, st4) \<Rightarrow>
                       if length (buffer st4) < STRUCT_HEADER_LENGTH
                       then ([Some e], Running, st4)
                       else
                         let (ys, s, st5) = for_decoded E P k st4
                         in (Some e # ys, s, st5))))"
  by pat_completeness auto
termination
  by (relation "measure (\<lambda>(E, P, k, st). length (buffer st))")
     (auto simp: read_clock_def consume_def Let_def split: prod.splits
           dest: next_event_yield_consumes [OF sym])

declare for_decoded.simps [simp del]

text \<open>
  What \<^verbatim>\<open>epoll.poll\<close> gives in one turn of the outer loop: an \<^verbatim>\<open>IOError\<close> with its
  \<^verbatim>\<open>errno\<close>, or the list of the ready descriptors, each \<^verbatim>\<open>(fd, event_type)\<close> here with
  the bytes that the \<^verbatim>\<open>os.read(fd, 1024)\<close> of this turn returns.
\<close>

datatype poll_result = Poll_IOError int | Poll_Events "(int \<times> 32 word \<times> bytes) list"

text \<open>The loop \<^verbatim>\<open>for fd, event_type in events\<close>.\<close>

fun for_ready ::
    "env \<Rightarrow> gen_params \<Rightarrow> consumer \<Rightarrow> (int \<times> 32 word \<times> bytes) list \<Rightarrow> inotify \<Rightarrow>
     item list \<times> status \<times> inotify" where
  "for_ready E P k [] st = ([], Running, st)"
| "for_ready E P k ((fd, event_type, b) # rest) st =
     (case get_event_names E event_type of
        None \<Rightarrow> ([], Raised AssertionError, st)
      | Some names \<Rightarrow>
          (case (if b = [] then ([], Running, st)
                 else for_decoded E P k (st\<lparr>buffer := buffer st @ b\<rparr>)) of
             (ys, Running, st1) \<Rightarrow>
               (let (zs, s, st2) = for_ready E P k rest st1
                in (ys @ zs, s, st2))
           | (ys, s, st1) \<Rightarrow> (ys, s, st1)))"

text \<open>
  The test \<^verbatim>\<open>time.time() - last_hit_s > timeout_s\<close> under \<^verbatim>\<open>if timeout_s is not None\<close>.
\<close>

definition timed_out :: "env \<Rightarrow> gen_params \<Rightarrow> inotify \<Rightarrow> bool \<times> inotify" where
  "timed_out E P st =
     (case timeout_s P of
        None \<Rightarrow> (False, st)
      | Some t \<Rightarrow>
          (let (now, st1) = read_clock E st
           in (now - last_hit_s st1 > t, st1)))"

text \<open>One turn of the loop \<^verbatim>\<open>while True\<close> of \<^verbatim>\<open>event_gen\<close>, on what the poll of the turn gives.\<close>

definition iteration ::
    "env \<Rightarrow> gen_params \<Rightarrow> consumer \<Rightarrow> poll_result \<Rightarrow> inotify \<Rightarrow>
     item list \<times> status \<times> inotify" where
  "iteration E P k p st =
     (case p of
        Poll_IOError errno \<Rightarrow>
          if errno \<noteq> EINTR then ([], Raised (IOError errno), st)
          else
            (let (brk, st1) = timed_out E P st
             in if brk then ([], Timed_out, st1) else ([], Running, st1))
      | Poll_Events events \<Rightarrow>
          (case for_ready E P k events st of
             (ys, Running, st1) \<Rightarrow>
               (let (brk, st2) = timed_out E P st1
                in if brk then (ys, Timed_out, st2)
                   else if yield_nones P then
                     (case consume k None st2 of
                        (Raise err, st3) \<Rightarrow> (ys @ [None], Consumer_raised err, st3)
                      | (Ok u, st3) \<Rightarrow> (ys @ [None], Running, st3))
                   else (ys, Running, st2))
           | (ys, s, st1) \<Rightarrow> (ys, s, st1)))"

text \<open>
  The loop \<^verbatim>\<open>while True\<close> along the polls of a run. \<open>Running\<close> after the last poll
  given: the generator is alive and waits in the next poll.
\<close>

fun while_true ::
    "env \<Rightarrow> gen_params \<Rightarrow> consumer \<Rightarrow> poll_result list \<Rightarrow> inotify \<Rightarrow>
     item list \<times> status \<times> inotify" where
  "while_true E P k [] st = ([], Running, st)"
| "while_true E P k (p # ps) st =
     (case iteration E P k p st of
        (ys, Running, st1) \<Rightarrow>
          (let (zs, s, st2) = while_true E P k ps st1
           in (ys @ zs, s, st2))
      | (ys, s, st1) \<Rightarrow> (ys, s, st1))"

text \<open>
  \<^verbatim>\<open>Inotify.event_gen\<close>: everything it yields along the given polls, how it ended (or
  that it still runs), and the state. The block duration only goes to the poll, whose
  results are given, and is left out.
\<close>

definition event_gen ::
    "env \<Rightarrow> gen_params \<Rightarrow> consumer \<Rightarrow> poll_result list \<Rightarrow> inotify \<Rightarrow>
     item list \<times> status \<times> inotify" where
  "event_gen E P k polls st =
     (let st0 = st\<lparr>last_success_return := None\<rparr>;
          (now, st1) = read_clock E st0
      in while_true E P k polls (st1\<lparr>last_hit_s := now\<rparr>))"

section \<open>The tree synchronizer\<close>

text \<open>\<^verbatim>\<open>os.path.join(path, filename)\<close> on a POSIX host, for its two arguments.\<close>

definition os_path_join :: "string \<Rightarrow> string \<Rightarrow> string" where
  "os_path_join a b =
     (if b \<noteq> [] \<and> hd b = CHR ''/'' then b
      else if a = [] \<or> last a = CHR ''/'' then a @ b
      else a @ ''/'' @ b)"

text \<open>\<^verbatim>\<open>self._mask\<close> as \<^verbatim>\<open>_BaseTree.__init__\<close> computes it from the mask asked for.\<close>

definition base_tree_mask :: "env \<Rightarrow> 32 word \<Rightarrow> 32 word" where
  "base_tree_mask E m =
     m OR IN_ISDIR E OR IN_CREATE E OR IN_MOVED_TO E OR IN_DELETE E OR IN_MOVED_FROM E"

text \<open>One call of \<^verbatim>\<open>os.path.exists\<close>.\<close>

definition path_exists :: "env \<Rightarrow> string \<Rightarrow> inotify \<Rightarrow> bool \<times> inotify" where
  "path_exists E p st =
     (let r = os_path_exists E (oscalls st) p
      in (r, st\<lparr>oscalls := oscalls st @ [Path_exists p r]\<rparr>))"

text \<open>
  The first statement of the loop body of \<^verbatim>\<open>_BaseTree.event_gen\<close> for a directory
  event with mask \<open>m\<close>: the \<^verbatim>\<open>if\<close> that adds a watch on \<open>full_path\<close>. The existence of the
  path is asked only when one of the two flags is set, and then always, since it is the
  first operand of the \<^verbatim>\<open>or\<close>. \<open>tmask\<close> is \<^verbatim>\<open>self._mask\<close>; \<open>ignore_missing_new_folders\<close>
  is \<open>False\<close> exactly for the object \<^verbatim>\<open>False\<close>.
\<close>

definition watch_new_directory ::
    "env \<Rightarrow> 32 word \<Rightarrow> bool \<Rightarrow> 32 word \<Rightarrow> string \<Rightarrow> inotify \<Rightarrow> unit result \<times> inotify" where
  "watch_new_directory E tmask ignore_missing_new_folders m full_path st =
     (if m AND IN_MOVED_TO E \<noteq> 0 \<or> m AND IN_CREATE E \<noteq> 0 then
        (let (ex, st0) = path_exists E full_path st
         in if ex \<or> \<not> ignore_missing_new_folders then
              (case add_watch E full_path tmask st0 of
                 (Raise err, s) \<Rightarrow> (Raise err, s)
               | (Ok w, s) \<Rightarrow> (Ok (), s))
            else (Ok (), st0))
      else (Ok (), st))"

text \<open>
  The second statement of that loop body: the \<^verbatim>\<open>if\<close> ... \<^verbatim>\<open>elif\<close> that removes the watch
  of \<open>full_path\<close>, with its \<^verbatim>\<open>try\<close> ... \<^verbatim>\<open>except inotify.calls.InotifyError: pass\<close> around
  the second removal.
\<close>

definition unwatch_old_directory ::
    "env \<Rightarrow> 32 word \<Rightarrow> string \<Rightarrow> inotify \<Rightarrow> unit result \<times> inotify" where
  "unwatch_old_directory E m full_path st =
     (if m AND IN_DELETE E \<noteq> 0 then remove_watch E full_path Sup_True st
      else if m AND IN_MOVED_FROM E \<noteq> 0 then
        (case remove_watch E full_path Sup_False st of
           (Raise InotifyError, s) \<Rightarrow> (Ok (), s)
         | (r, s) \<Rightarrow> (r, s))
      else (Ok (), st))"

text \<open>
  The body of the loop of \<^verbatim>\<open>_BaseTree.event_gen\<close> before its \<^verbatim>\<open>yield event\<close>, on the
  \<^verbatim>\<open>Inotify\<close> object \<^verbatim>\<open>self._i\<close>: nothing for \<^verbatim>\<open>None\<close> and for an event without the
  directory flag, the two statements above for a directory event; an exception of the
  first statement leaves the body.
\<close>

definition tree_housekeeping :: "env \<Rightarrow> 32 word \<Rightarrow> bool \<Rightarrow> consumer" where
  "tree_housekeeping E tmask ignore_missing_new_folders x st =
     (case x of
        None \<Rightarrow> (Ok (), st)
      | Some e \<Rightarrow>
          (let header = ev_header e; path = ev_path e; filename = ev_filename e
           in if mask header AND IN_ISDIR E \<noteq> 0 then
                (let full_path = os_path_join path filename
                 in case watch_new_directory E tmask ignore_missing_new_folders
                           (mask header) full_path st of
                      (Raise err, st1) \<Rightarrow> (Raise err, st1)
                    | (Ok u, st1) \<Rightarrow> unwatch_old_directory E (mask header) full_path st1)
              else (Ok (), st)))"

text \<open>
  \<^verbatim>\<open>_BaseTree.event_gen\<close>: the generator of \<^verbatim>\<open>self._i\<close> consumed by the body above, each
  item yielded again after the body. When the body raises, the item it was working on
  is not yielded and the exception leaves the generator of the tree.
\<close>

definition tree_event_gen ::
    "env \<Rightarrow> 32 word \<Rightarrow> bool \<Rightarrow> gen_params \<Rightarrow> poll_result list \<Rightarrow> inotify \<Rightarrow>
     item list \<times> status \<times> inotify" where
  "tree_event_gen E tmask ignore_missing_new_folders P polls st =
     (case event_gen E P (tree_housekeeping E tmask ignore_missing_new_folders) polls st of
        (ys, Consumer_raised err, st1) \<Rightarrow> (butlast ys, Raised err, st1)
      | (ys, s, st1) \<Rightarrow> (ys, s, st1))"

section \<open>Runs of registry operations\<close>

text \<open>
  The calls a user of an \<^verbatim>\<open>Inotify\<close> object can make on its registry, and the state
  after a run of them. A caller can catch what a call raises and go on, so a run goes
  on from the state that the call left.
\<close>

datatype registry_op = Add string "32 word" | Remove string superficial | Remove_id int superficial

definition apply_op :: "env \<Rightarrow> registry_op \<Rightarrow> inotify \<Rightarrow> inotify" where
  "apply_op E c st =
     (case c of
        Add p m \<Rightarrow> snd (add_watch E p m st)
      | Remove p s \<Rightarrow> snd (remove_watch E p s st)
      | Remove_id w s \<Rightarrow> snd (remove_watch_with_id E w s st))"

fun run_ops :: "env \<Rightarrow> registry_op list \<Rightarrow> inotify \<Rightarrow> inotify" where
  "run_ops E [] st = st"
| "run_ops E (c # cs) st = run_ops E cs (apply_op E c st)"

text \<open>The watch descriptors that the kernel has handed out, read off the calls made.\<close>

fun returned_id :: "oscall \<Rightarrow> int list" where
  "returned_id (Inotify_add_watch p m (Some w)) = [w]"
| "returned_id c = []"

definition ids_of :: "oscall list \<Rightarrow> int list" where
  "ids_of log = concat (map returned_id log)"

text \<open>The kernel never hands out a watch descriptor that it has handed out before.\<close>

definition distinct_ids :: "env \<Rightarrow> bool" where
  "distinct_ids E = (\<forall>log p m w. inotify_add_watch E log p m = Some w \<longrightarrow> w \<notin> set (ids_of log))"

text \<open>The operation removes the watch of path \<open>p\<close> with descriptor \<open>w\<close>.\<close>

definition removes :: "registry_op \<Rightarrow> string \<Rightarrow> int \<Rightarrow> bool" where
  "removes c p w =
     (case c of
        Add q m \<Rightarrow> False
      | Remove q s \<Rightarrow> q = p \<and> s \<noteq> Sup_None
      | Remove_id v s \<Rightarrow> v = w \<and> s \<noteq> Sup_None)"

text \<open>
  The two maps are inverse to each other, and every descriptor in the registry came from
  the kernel.
\<close>

definition registry_inv :: "inotify \<Rightarrow> bool" where
  "registry_inv st =
     ((\<forall>p w. watches st p = Some w \<longleftrightarrow> watches_r st w = Some p)
      \<and> dom (watches_r st) \<subseteq> set (ids_of (oscalls st)))"

text \<open>The same call made \<open>n\<close> times in a row: the results and the last state.\<close>

fun call_times :: "nat \<Rightarrow> (inotify \<Rightarrow> 'a result \<times> inotify) \<Rightarrow> inotify \<Rightarrow> 'a result list \<times> inotify" where
  "call_times 0 f st = ([], st)"
| "call_times (Suc n) f st =
     (let (r, st1) = f st; (rs, st2) = call_times n f st1 in (r # rs, st2))"

section \<open>An example environment\<close>

text \<open>
  The constants of Linux, a few rows of the lookup table, a kernel that numbers its
  watches upwards, a clock that ticks with every call, and a decoder for ASCII names.
\<close>

definition ascii_decode :: "bytes \<Rightarrow> string option" where
  "ascii_decode bs =
     (if list_all (\<lambda>b. b < 128) bs then Some (map (\<lambda>b. char_of (unat b)) bs) else None)"

definition fresh_id :: "oscall list \<Rightarrow> int" where
  "fresh_id log = 1 + foldr max (ids_of log) 0"

definition example_env :: env where
  "example_env =
     \<lparr>IN_ISDIR = 0x40000000, IN_CREATE = 0x100, IN_MOVED_TO = 0x80, IN_DELETE = 0x200,
      IN_MOVED_FROM = 0x40,
      MASK_LOOKUP_COMB =
        [0x1 \<mapsto> [''IN_ACCESS''],
         0x100 \<mapsto> [''IN_CREATE''],
         0x4000 \<mapsto> [''IN_Q_OVERFLOW''],
         0x40000100 \<mapsto> [''IN_CREATE'', ''IN_ISDIR''],
         0x40000200 \<mapsto> [''IN_DELETE'', ''IN_ISDIR''],
         0x40000040 \<mapsto> [''IN_MOVED_FROM'', ''IN_ISDIR''],
         0x40000240 \<mapsto> [''IN_MOVED_FROM'', ''IN_DELETE'', ''IN_ISDIR'']],
      inotify_add_watch = (\<lambda>log p m. Some (fresh_id log)),
      inotify_rm_watch = (\<lambda>log w. True),
      os_path_exists = (\<lambda>log p. True),
      time_time = (\<lambda>log. int (length log)),
      utf8_decode = ascii_decode\<rparr>"

definition example_ops :: "registry_op list" where
  "example_ops = [Add ''/a'' 256, Add ''/b'' 256, Remove ''/a'' Sup_True]"

section \<open>Example records\<close>

text \<open>The state \<open>st\<close> after \<open>x\<close> more bytes have been appended to its buffer.\<close>

definition received :: "bytes \<Rightarrow> inotify \<Rightarrow> inotify" where
  "received x st = st\<lparr>buffer := buffer st @ x\<rparr>"

text \<open>
  Two records on the wire for the watch descriptor 1, the events they decode to when
  the descriptor stands for \<^verbatim>\<open>/a\<close>, and a way to cut their concatenation into four reads.
\<close>

definition example_record_1 :: bytes where
  "example_record_1 = [1,0,0,0, 0,1,0,0, 0,0,0,0, 4,0,0,0, 97,98,0,0]"

definition example_record_2 :: bytes where
  "example_record_2 = [1,0,0,0, 0,1,0,64, 0,0,0,0, 4,0,0,0, 100,0,0,0]"

definition example_event_1 :: event where
  "example_event_1 = (\<lparr>wd = 1, mask = 0x100, cookie = 0, len = 4\<rparr>, [''IN_CREATE''], ''/a'', ''ab'')"

definition example_event_2 :: event where
  "example_event_2 =
     (\<lparr>wd = 1, mask = 0x40000100, cookie = 0, len = 4\<rparr>, [''IN_CREATE'', ''IN_ISDIR''], ''/a'', ''d'')"

definition example_state :: inotify where
  "example_state = snd (add_watch example_env ''/a'' 0x100 new_inotify)"

definition example_chunks :: "bytes list" where
  "example_chunks =
     [take 5 example_record_1, drop 5 example_record_1 @ take 3 example_record_2, [],
      drop 3 example_record_2]"

section \<open>Example streams\<close>

text \<open>
  A record of a queue overflow on the watch descriptor 1 and its event, the default
  arguments of \<^verbatim>\<open>event_gen\<close>, and two filters: one that stops at every kind, one that
  stops at \<^verbatim>\<open>IN_ISDIR\<close>.
\<close>

definition example_record_overflow :: bytes where
  "example_record_overflow = [1,0,0,0, 0,64,0,0, 0,0,0,0, 0,0,0,0]"

definition example_event_overflow :: event where
  "example_event_overflow =
     (\<lparr>wd = 1, mask = 0x4000, cookie = 0, len = 0\<rparr>, [''IN_Q_OVERFLOW''], ''/a'', '''')"

definition example_params :: gen_params where
  "example_params =
     \<lparr>timeout_s = None, yield_nones = True, filter_predicate = None,
      terminal_events = DEFAULT_TERMINAL_EVENTS\<rparr>"

definition stop_all_params :: gen_params where
  "stop_all_params = example_params\<lparr>filter_predicate := Some (\<lambda>type_name e. False)\<rparr>"

definition isdir_stop_params :: gen_params where
  "isdir_stop_params =
     example_params\<lparr>filter_predicate := Some (\<lambda>type_name e. type_name \<noteq> ''IN_ISDIR'')\<rparr>"

text \<open>
  The state after a decoded event has set \<^verbatim>\<open>last_hit_s\<close>: one more reading of the clock.
\<close>

definition stamp :: "env \<Rightarrow> inotify \<Rightarrow> inotify" where
  "stamp E st =
     st\<lparr>oscalls := oscalls st @ [Time (time_time E (oscalls st))],
        last_hit_s := time_time E (oscalls st)\<rparr>"

section \<open>Example trees\<close>

text \<open>The calls to \<^verbatim>\<open>inotify_rm_watch\<close> and to \<^verbatim>\<open>inotify_add_watch\<close> among the calls made.\<close>

fun is_rm_call :: "oscall \<Rightarrow> bool" where
  "is_rm_call (Inotify_rm_watch w ok) = True"
| "is_rm_call c = False"


definition rm_calls :: "oscall list \<Rightarrow> oscall list" where
  "rm_calls log = filter is_rm_call log"


text \<open>
  A tree object with the mask that \<^verbatim>\<open>_BaseTree.__init__\<close> computes from 0, watching
  \<^verbatim>\<open>/a\<close> and \<^verbatim>\<open>/a/d\<close>; directory events under \<^verbatim>\<open>/a\<close>; a kernel whose \<^verbatim>\<open>inotify_rm_watch\<close>
  always fails, and a file system where no path exists.
\<close>

definition example_tree_mask :: "32 word" where
  "example_tree_mask = base_tree_mask example_env 0"

definition example_tree_state :: inotify where
  "example_tree_state =
     run_ops example_env [Add ''/a'' example_tree_mask, Add ''/a/d'' example_tree_mask] new_inotify"

definition example_dir_event :: "32 word \<Rightarrow> string list \<Rightarrow> string \<Rightarrow> event" where
  "example_dir_event m names filename =
     (\<lparr>wd = 1, mask = m, cookie = 0, len = 4\<rparr>, names, ''/a'', filename)"

definition example_deleted_dir :: event where
  "example_deleted_dir = example_dir_event 0x40000200 [''IN_DELETE'', ''IN_ISDIR''] ''d''"

definition example_moved_dir :: event where
  "example_moved_dir = example_dir_event 0x40000040 [''IN_MOVED_FROM'', ''IN_ISDIR''] ''d''"

definition example_moved_deleted_dir :: event where
  "example_moved_deleted_dir =
     example_dir_event 0x40000240 [''IN_MOVED_FROM'', ''IN_DELETE'', ''IN_ISDIR''] ''d''"

definition example_created_dir :: event where
  "example_created_dir = example_dir_event 0x40000100 [''IN_CREATE'', ''IN_ISDIR''] ''e''"

definition failing_rm_env :: env where
  "failing_rm_env = example_env\<lparr>inotify_rm_watch := \<lambda>log w. False\<rparr>"

definition missing_dir_env :: env where
  "missing_dir_env = example_env\<lparr>os_path_exists := \<lambda>log p. False\<rparr>"

text \<open>A record of a file created under the watch descriptor 2, and its event.\<close>

definition example_record_3 :: bytes where
  "example_record_3 = [2,0,0,0, 0,1,0,0, 0,0,0,0, 4,0,0,0, 97,98,0,0]"

definition example_event_3 :: event where
  "example_event_3 =
     (\<lparr>wd = 2, mask = 0x100, cookie = 0, len = 4\<rparr>, [''IN_CREATE''], ''/a/d'', ''ab'')"

section \<open>The registry: properties\<close>

lemma ids_of_append: "ids_of (xs @ ys) = ids_of xs @ ids_of ys"
  by (simp add: ids_of_def)

lemma registry_inv_fwd: "registry_inv st \<Longrightarrow> watches st p = Some w \<Longrightarrow> watches_r st w = Some p"
  by (simp add: registry_inv_def)

lemma registry_inv_bwd: "registry_inv st \<Longrightarrow> watches_r st w = Some p \<Longrightarrow> watches st p = Some w"
  by (simp add: registry_inv_def)

lemma registry_inv_ids: "registry_inv st \<Longrightarrow> watches_r st w = Some p \<Longrightarrow> w \<in> set (ids_of (oscalls st))"
  by (auto simp: registry_inv_def)

lemma registry_invI:
  assumes "\<And>p w. watches st p = Some w \<Longrightarrow> watches_r st w = Some p"
    and "\<And>p w. watches_r st w = Some p \<Longrightarrow> watches st p = Some w"
    and "\<And>p w. watches_r st w = Some p \<Longrightarrow> w \<in> set (ids_of (oscalls st))"
  shows "registry_inv st"
  unfolding registry_inv_def using assms by blast

lemma registry_inv_add:
  assumes "distinct_ids E" "registry_inv st"
  shows "registry_inv (snd (add_watch E p m st))"
proof (cases "p \<in> dom (watches st)")
  case True then show ?thesis using assms by (simp add: add_watch_def)
next
  case False
  then have nop: "watches st p = None" by auto
  show ?thesis
  proof (cases "inotify_add_watch E (oscalls st) p m")
    case None
    have eq: "snd (add_watch E p m st) = st\<lparr>oscalls := oscalls st @ [Inotify_add_watch p m None]\<rparr>"
      using False None by (simp add: add_watch_def Let_def)
    show ?thesis
      unfolding eq using assms(2)
      by (intro registry_invI) (auto simp: ids_of_append dest: registry_inv_fwd registry_inv_bwd registry_inv_ids)
  next
    case (Some w)
    with assms have "w \<notin> set (ids_of (oscalls st))" by (auto simp: distinct_ids_def)
    with assms have fresh: "watches_r st w = None"
      by (cases "watches_r st w") (auto dest: registry_inv_ids)
    have eq: "snd (add_watch E p m st) =
        st\<lparr>oscalls := oscalls st @ [Inotify_add_watch p m (Some w)],
           watches := (watches st)(p \<mapsto> w), watches_r := (watches_r st)(w \<mapsto> p)\<rparr>"
      using False Some by (simp add: add_watch_def Let_def)
    show ?thesis
      unfolding eq
    proof (rule registry_invI)
      fix q v
      assume "watches (st\<lparr>oscalls := oscalls st @ [Inotify_add_watch p m (Some w)],
           watches := (watches st)(p \<mapsto> w), watches_r := (watches_r st)(w \<mapsto> p)\<rparr>) q = Some v"
      then show "watches_r (st\<lparr>oscalls := oscalls st @ [Inotify_add_watch p m (Some w)],
           watches := (watches st)(p \<mapsto> w), watches_r := (watches_r st)(w \<mapsto> p)\<rparr>) v = Some q"
        using fresh registry_inv_fwd [OF assms(2), of q v]
        by (auto split: if_splits)
    next
      fix q v
      assume "watches_r (st\<lparr>oscalls := oscalls st @ [Inotify_add_watch p m (Some w)],
           watches := (watches st)(p \<mapsto> w), watches_r := (watches_r st)(w \<mapsto> p)\<rparr>) v = Some q"
      then show "watches (st\<lparr>oscalls := oscalls st @ [Inotify_add_watch p m (Some w)],
           watches := (watches st)(p \<mapsto> w), watches_r := (watches_r st)(w \<mapsto> p)\<rparr>) q = Some v"
        using nop registry_inv_bwd [OF assms(2), of v q]
        by (auto split: if_splits)
    next
      fix q v
      assume "watches_r (st\<lparr>oscalls := oscalls st @ [Inotify_add_watch p m (Some w)],
           watches := (watches st)(p \<mapsto> w), watches_r := (watches_r st)(w \<mapsto> p)\<rparr>) v = Some q"
      then show "v \<in> set (ids_of (oscalls (st\<lparr>oscalls := oscalls st @ [Inotify_add_watch p m (Some w)],
           watches := (watches st)(p \<mapsto> w), watches_r := (watches_r st)(w \<mapsto> p)\<rparr>)))"
        using registry_inv_ids [OF assms(2), of v q]
        by (auto simp: ids_of_append ids_of_def split: if_splits)
    qed
  qed
qed

lemma remove_watch_inner_registered:
  assumes "watches st p = Some w" "watches_r st w = Some p" "s \<noteq> Sup_None"
  shows "watches (snd (remove_watch_inner E w p s st)) = (watches st)(p := None)"
    and "watches_r (snd (remove_watch_inner E w p s st)) = (watches_r st)(w := None)"
    and "set (ids_of (oscalls (snd (remove_watch_inner E w p s st)))) = set (ids_of (oscalls st))"
  using assms
  by (cases s; auto simp: remove_watch_inner_def Let_def ids_of_append ids_of_def)+

lemma remove_watch_inner_none:
  "remove_watch_inner E w p Sup_None st = (Ok (), st)"
  by (simp add: remove_watch_inner_def)

lemma registry_inv_remove_inner:
  assumes "registry_inv st" "watches st p = Some w"
  shows "registry_inv (snd (remove_watch_inner E w p s st))"
proof (cases "s = Sup_None")
  case True with assms show ?thesis by (simp add: remove_watch_inner_none)
next
  case False
  from assms have r: "watches_r st w = Some p" by (rule registry_inv_fwd)
  note eqs = remove_watch_inner_registered [OF assms(2) r False, of E]
  show ?thesis
  proof (rule registry_invI)
    fix q v
    assume "watches (snd (remove_watch_inner E w p s st)) q = Some v"
    then show "watches_r (snd (remove_watch_inner E w p s st)) v = Some q"
      using registry_inv_fwd [OF assms(1), of q v] assms(2) r
      by (auto simp: eqs split: if_splits)
  next
    fix q v
    assume "watches_r (snd (remove_watch_inner E w p s st)) v = Some q"
    then show "watches (snd (remove_watch_inner E w p s st)) q = Some v"
      using registry_inv_bwd [OF assms(1), of v q] r assms(2)
      by (auto simp: eqs split: if_splits)
  next
    fix q v
    assume "watches_r (snd (remove_watch_inner E w p s st)) v = Some q"
    then show "v \<in> set (ids_of (oscalls (snd (remove_watch_inner E w p s st))))"
      using registry_inv_ids [OF assms(1), of v q]
      by (auto simp: eqs split: if_splits)
  qed
qed

lemma registry_inv_apply:
  assumes "distinct_ids E" "registry_inv st"
  shows "registry_inv (apply_op E c st)"
proof (cases c)
  case (Add p m) with assms show ?thesis by (simp add: apply_op_def registry_inv_add)
next
  case (Remove p s)
  with assms show ?thesis
    by (auto simp: apply_op_def remove_watch_def registry_inv_remove_inner split: option.splits)
next
  case (Remove_id w s)
  show ?thesis
  proof (cases "watches_r st w")
    case None with Remove_id assms show ?thesis by (simp add: apply_op_def remove_watch_with_id_def)
  next
    case (Some p)
    with assms have "watches st p = Some w" by (simp add: registry_inv_def)
    with Some Remove_id assms show ?thesis
      by (simp add: apply_op_def remove_watch_with_id_def registry_inv_remove_inner)
  qed
qed

lemma registry_inv_run:
  "distinct_ids E \<Longrightarrow> registry_inv st \<Longrightarrow> registry_inv (run_ops E cs st)"
  by (induction cs arbitrary: st) (auto simp: registry_inv_apply)

lemma registry_inv_new: "registry_inv new_inotify"
  by (simp add: registry_inv_def new_inotify_def)


lemma add_watch_lookup:
  "add_watch E p m st = (Ok (Some w), st') \<Longrightarrow> watches st' p = Some w \<and> watches_r st' w = Some p"
  by (auto simp: add_watch_def Let_def split: if_splits option.splits)

lemma apply_op_keeps:
  assumes fresh: "distinct_ids E" and inv: "registry_inv st"
    and reg: "watches st p = Some w" and keep: "\<not> removes c p w"
  shows "watches (apply_op E c st) p = Some w \<and> watches_r (apply_op E c st) w = Some p"
proof -
  from inv reg have r: "watches_r st w = Some p" by (rule registry_inv_fwd)
  show ?thesis
  proof (cases c)
    case (Add q m)
    show ?thesis
    proof (cases "q \<in> dom (watches st)")
      case True with Add reg r show ?thesis by (simp add: apply_op_def add_watch_def)
    next
      case False
      with reg have qp: "q \<noteq> p" by auto
      show ?thesis
      proof (cases "inotify_add_watch E (oscalls st) q m")
        case None with False Add reg r show ?thesis
          by (simp add: apply_op_def add_watch_def Let_def)
      next
        case (Some v)
        with fresh have "v \<notin> set (ids_of (oscalls st))" by (auto simp: distinct_ids_def)
        with registry_inv_ids [OF inv r] have "v \<noteq> w" by auto
        with Some False Add reg r qp show ?thesis
          by (simp add: apply_op_def add_watch_def Let_def)
      qed
    qed
  next
    case (Remove q s)
    show ?thesis
    proof (cases "watches st q")
      case None with Remove reg r show ?thesis by (simp add: apply_op_def remove_watch_def)
    next
      case (Some v)
      from inv Some have rv: "watches_r st v = Some q" by (rule registry_inv_fwd)
      show ?thesis
      proof (cases "s = Sup_None")
        case True with Remove Some reg r show ?thesis
          by (simp add: apply_op_def remove_watch_def remove_watch_inner_none)
      next
        case False
        with keep Remove have qp: "q \<noteq> p" by (simp add: removes_def)
        with rv r have vw: "v \<noteq> w" by auto
        from remove_watch_inner_registered(1,2) [OF Some rv False, of E] Remove Some reg r qp vw
        show ?thesis by (simp add: apply_op_def remove_watch_def)
      qed
    qed
  next
    case (Remove_id v s)
    show ?thesis
    proof (cases "watches_r st v")
      case None with Remove_id reg r show ?thesis by (simp add: apply_op_def remove_watch_with_id_def)
    next
      case (Some q)
      from inv Some have wq: "watches st q = Some v" by (rule registry_inv_bwd)
      show ?thesis
      proof (cases "s = Sup_None")
        case True with Remove_id Some reg r show ?thesis
          by (simp add: apply_op_def remove_watch_with_id_def remove_watch_inner_none)
      next
        case False
        with keep Remove_id have vw: "v \<noteq> w" by (simp add: removes_def)
        with wq reg have qp: "q \<noteq> p" by auto
        from remove_watch_inner_registered(1,2) [OF wq Some False, of E] Remove_id Some reg r qp vw
        show ?thesis by (simp add: apply_op_def remove_watch_with_id_def)
      qed
    qed
  qed
qed

lemma apply_op_removes:
  assumes inv: "registry_inv st" and reg: "watches st p = Some w" and s: "s \<noteq> Sup_None"
  shows "watches (apply_op E (Remove p s) st) p = None"
    and "watches_r (apply_op E (Remove p s) st) w = None"
    and "watches (apply_op E (Remove_id w s) st) p = None"
    and "watches_r (apply_op E (Remove_id w s) st) w = None"
proof -
  from inv reg have r: "watches_r st w = Some p" by (rule registry_inv_fwd)
  note eqs = remove_watch_inner_registered(1,2) [OF reg r s, of E]
  show "watches (apply_op E (Remove p s) st) p = None"
    using reg eqs by (simp add: apply_op_def remove_watch_def)
  show "watches_r (apply_op E (Remove p s) st) w = None"
    using reg eqs by (simp add: apply_op_def remove_watch_def)
  show "watches (apply_op E (Remove_id w s) st) p = None"
    using r eqs by (simp add: apply_op_def remove_watch_with_id_def)
  show "watches_r (apply_op E (Remove_id w s) st) w = None"
    using r eqs by (simp add: apply_op_def remove_watch_with_id_def)
qed

lemma foldr_max_ge: "x \<in> set xs \<Longrightarrow> x \<le> foldr max xs (0::int)"
  by (induction xs) auto

lemma fresh_id_new: "fresh_id log \<notin> set (ids_of log)"
  using foldr_max_ge [of "fresh_id log" "ids_of log"] by (auto simp: fresh_id_def)

lemma distinct_ids_example: "distinct_ids example_env"
  using fresh_id_new by (auto simp: distinct_ids_def example_env_def)

lemmas registry_eval = apply_op_def add_watch_def remove_watch_def
  remove_watch_with_id_def remove_watch_inner_def new_inotify_def example_env_def
  fresh_id_def ids_of_def Let_def example_ops_def

lemma example_ops_state:
  "watches (run_ops example_env example_ops new_inotify) ''/b'' = Some 2"
  by (simp add: registry_eval)

text \<open>
  Claim C5. The registry is a bijection between paths and watch descriptors. Let the
  kernel never hand out a descriptor twice, and let \<open>st\<close> be the state after any run of
  \<^verbatim>\<open>add_watch\<close>, \<^verbatim>\<open>remove_watch\<close> and \<^verbatim>\<open>remove_watch_with_id\<close> calls on a new object. Then
  in \<open>st\<close> a path maps to a descriptor exactly when the descriptor maps back to the path,
  no two paths share a descriptor and no two descriptors share a path; when \<^verbatim>\<open>add_watch\<close>
  returns a descriptor, both lookups give the new pair; a registered pair stays through
  every call that does not remove it; and after its removal by path or by descriptor
  (\<^verbatim>\<open>superficial\<close> being \<^verbatim>\<open>True\<close> or \<^verbatim>\<open>False\<close>) both lookups fail.
\<close>

theorem registry_bijection:
  assumes fresh: "distinct_ids E" and reach: "st = run_ops E cs new_inotify"
  shows "(\<forall>p w. watches st p = Some w \<longleftrightarrow> watches_r st w = Some p)
       \<and> (\<forall>p q w. watches st p = Some w \<and> watches st q = Some w \<longrightarrow> p = q)
       \<and> (\<forall>v w p. watches_r st v = Some p \<and> watches_r st w = Some p \<longrightarrow> v = w)
       \<and> (\<forall>p m w st'. add_watch E p m st = (Ok (Some w), st') \<longrightarrow>
             watches st' p = Some w \<and> watches_r st' w = Some p)
       \<and> (\<forall>p w c. watches st p = Some w \<and> \<not> removes c p w \<longrightarrow>
             watches (apply_op E c st) p = Some w \<and> watches_r (apply_op E c st) w = Some p)
       \<and> (\<forall>p w s. watches st p = Some w \<and> s \<noteq> Sup_None \<longrightarrow>
             watches (apply_op E (Remove p s) st) p = None
             \<and> watches_r (apply_op E (Remove p s) st) w = None
             \<and> watches (apply_op E (Remove_id w s) st) p = None
             \<and> watches_r (apply_op E (Remove_id w s) st) w = None)"
proof -
  have inv: "registry_inv st"
    unfolding reach using fresh registry_inv_new by (rule registry_inv_run)
  have 1: "\<forall>p w. watches st p = Some w \<longleftrightarrow> watches_r st w = Some p"
    using inv by (simp add: registry_inv_def)
  have 2: "\<forall>p q w. watches st p = Some w \<and> watches st q = Some w \<longrightarrow> p = q"
    using 1 by (metis option.inject)
  have 3: "\<forall>v w p. watches_r st v = Some p \<and> watches_r st w = Some p \<longrightarrow> v = w"
    using 1 by (metis option.inject)
  have 4: "\<forall>p m w st'. add_watch E p m st = (Ok (Some w), st') \<longrightarrow>
             watches st' p = Some w \<and> watches_r st' w = Some p"
    by (blast dest: add_watch_lookup)
  have 5: "\<forall>p w c. watches st p = Some w \<and> \<not> removes c p w \<longrightarrow>
             watches (apply_op E c st) p = Some w \<and> watches_r (apply_op E c st) w = Some p"
    using apply_op_keeps [OF fresh inv] by blast
  have 6: "\<forall>p w s. watches st p = Some w \<and> s \<noteq> Sup_None \<longrightarrow>
             watches (apply_op E (Remove p s) st) p = None
             \<and> watches_r (apply_op E (Remove p s) st) w = None
             \<and> watches (apply_op E (Remove_id w s) st) p = None
             \<and> watches_r (apply_op E (Remove_id w s) st) w = None"
    using apply_op_removes [OF inv] by blast
  from 1 2 3 4 5 6 show ?thesis by blast
qed

theorem registry_bijection_witness:
  "distinct_ids example_env
   \<and> watches (run_ops example_env example_ops new_inotify) ''/b'' = Some 2
   \<and> watches_r (run_ops example_env example_ops new_inotify) 2 = Some ''/b''
   \<and> watches (apply_op example_env (Add ''/c'' 256) (run_ops example_env example_ops new_inotify)) ''/b'' = Some 2
   \<and> watches (apply_op example_env (Remove ''/b'' Sup_False) (run_ops example_env example_ops new_inotify)) ''/b'' = None
   \<and> watches_r (apply_op example_env (Remove_id 2 Sup_True) (run_ops example_env example_ops new_inotify)) 2 = None"
proof -
  note t = registry_bijection [OF distinct_ids_example refl, of example_ops]
  have k: "\<not> removes (Add ''/c'' 256) ''/b'' 2" by (simp add: removes_def)
  from t example_ops_state k show ?thesis
    using distinct_ids_example by blast
qed

lemma call_times_same:
  "f st = (r, st) \<Longrightarrow> call_times n f st = (replicate n r, st)"
  by (induction n) simp_all

text \<open>
  Claim C6. Calls that the registry tolerates: \<^verbatim>\<open>add_watch\<close> on a path already watched,
  and \<^verbatim>\<open>remove_watch\<close> or \<^verbatim>\<open>remove_watch_with_id\<close> on a path or descriptor that is not
  registered, made any number \<open>n\<close> of times, return normally each time (\<^verbatim>\<open>add_watch\<close>
  returns \<^verbatim>\<open>None\<close>) and leave the whole state as it was: the two maps are unchanged and
  no call to the kernel is made.
\<close>

theorem tolerated_duplicates:
  "(path \<in> dom (watches st) \<longrightarrow>
      call_times n (add_watch E path m) st = (replicate n (Ok None), st))
   \<and> (path \<notin> dom (watches st) \<longrightarrow>
      call_times n (remove_watch E path s) st = (replicate n (Ok ()), st))
   \<and> (w \<notin> dom (watches_r st) \<longrightarrow>
      call_times n (remove_watch_with_id E w s) st = (replicate n (Ok ()), st))"
proof (intro conjI impI)
  assume "path \<in> dom (watches st)"
  then have "add_watch E path m st = (Ok None, st)" by (simp add: add_watch_def)
  then show "call_times n (add_watch E path m) st = (replicate n (Ok None), st)"
    by (rule call_times_same)
next
  assume "path \<notin> dom (watches st)"
  then have "remove_watch E path s st = (Ok (), st)"
    by (auto simp: remove_watch_def split: option.splits)
  then show "call_times n (remove_watch E path s) st = (replicate n (Ok ()), st)"
    by (rule call_times_same)
next
  assume "w \<notin> dom (watches_r st)"
  then have "remove_watch_with_id E w s st = (Ok (), st)"
    by (auto simp: remove_watch_with_id_def split: option.splits)
  then show "call_times n (remove_watch_with_id E w s) st = (replicate n (Ok ()), st)"
    by (rule call_times_same)
qed

theorem tolerated_duplicates_witness:
  "call_times 2 (add_watch example_env ''/b'' 256) (run_ops example_env example_ops new_inotify)
     = ([Ok None, Ok None], run_ops example_env example_ops new_inotify)
   \<and> call_times 3 (remove_watch example_env ''/a'' Sup_False) (run_ops example_env example_ops new_inotify)
     = ([Ok (), Ok (), Ok ()], run_ops example_env example_ops new_inotify)
   \<and> call_times 2 (remove_watch_with_id example_env 1 Sup_False) (run_ops example_env example_ops new_inotify)
     = ([Ok (), Ok ()], run_ops example_env example_ops new_inotify)"
proof -
  have a: "''/b'' \<in> dom (watches (run_ops example_env example_ops new_inotify))"
    by (simp add: registry_eval)
  have b: "''/a'' \<notin> dom (watches (run_ops example_env example_ops new_inotify))"
    by (simp add: registry_eval)
  have c: "1 \<notin> dom (watches_r (run_ops example_env example_ops new_inotify))"
    by (simp add: registry_eval)
  from tolerated_duplicates [of "''/b''" "run_ops example_env example_ops new_inotify" 2 example_env 256]
       tolerated_duplicates [of "''/a''" "run_ops example_env example_ops new_inotify" 3 example_env _ Sup_False]
       tolerated_duplicates [of _ "run_ops example_env example_ops new_inotify" 2 example_env _ Sup_False 1]
       a b c
  show ?thesis by (simp add: numeral_2_eq_2 numeral_3_eq_3)
qed

text \<open>
  Claim C9. With \<^verbatim>\<open>superficial=None\<close>, \<^verbatim>\<open>remove_watch\<close> and \<^verbatim>\<open>remove_watch_with_id\<close> return
  normally and leave the whole state as it was, on a registered path or descriptor as on
  any other: both maps keep their entries and the list of system calls is unchanged, so
  no watch is removed in the kernel.
\<close>

theorem superficial_none_is_noop:
  "remove_watch E path Sup_None st = (Ok (), st)
   \<and> remove_watch_with_id E w Sup_None st = (Ok (), st)"
  by (simp add: remove_watch_def remove_watch_with_id_def remove_watch_inner_none
           split: option.splits)

section \<open>The decoder: properties\<close>

lemma received_Nil [simp]: "received [] st = st"
  by (simp add: received_def)

lemma received_append: "received (x @ y) st = received y (received x st)"
  by (simp add: received_def)

lemma buffer_received [simp]: "buffer (received x st) = buffer st @ x"
  by (simp add: received_def)

lemma decode_one_short:
  "length (buffer st) < STRUCT_HEADER_LENGTH \<Longrightarrow> decode_one E st = (Dec_Return, st)"
  by (simp add: decode_one_def)

lemma decode_one_return: "decode_one E st = (Dec_Return, st1) \<Longrightarrow> st1 = st"
  by (auto simp: decode_one_def Let_def split: if_splits option.splits)

lemma decode_one_more:
  assumes "decode_one E st = (d, st1)" "d \<noteq> Dec_Return"
  shows "decode_one E (received x st) = (d, received x st1)"
  using assms
  by (auto simp: decode_one_def Let_def received_def STRUCT_HEADER_LENGTH_def
           split: if_splits option.splits)


lemma next_event_short:
  "length (buffer st) < STRUCT_HEADER_LENGTH \<Longrightarrow> next_event E st = (Gen_Stop, st)"
  by (simp add: next_event.simps [of E st] decode_one_short)

lemma next_event_more:
  "next_event E st = (g, st1) \<Longrightarrow> g \<noteq> Gen_Stop \<Longrightarrow>
     next_event E (received x st) = (g, received x st1)"
proof (induction E st arbitrary: st1 rule: next_event.induct)
  case (1 E st)
  obtain d st0 where d: "decode_one E st = (d, st0)"
    by (cases "decode_one E st")
  show ?case
  proof (cases d)
    case Dec_Return
    with "1.prems" d show ?thesis by (simp add: next_event.simps [of E st])
  next
    case (Dec_Raise err)
    with d have "decode_one E (received x st) = (Dec_Raise err, received x st0)"
      by (simp add: decode_one_more)
    with "1.prems" d Dec_Raise show ?thesis
      by (simp add: next_event.simps [of E st] next_event.simps [of E "received x st"])
  next
    case (Dec_Yield e)
    with d have "decode_one E (received x st) = (Dec_Yield e, received x st0)"
      by (simp add: decode_one_more)
    with "1.prems" d Dec_Yield show ?thesis
      by (simp add: next_event.simps [of E st] next_event.simps [of E "received x st"])
  next
    case Dec_Skip
    with d have dx: "decode_one E (received x st) = (Dec_Skip, received x st0)"
      by (simp add: decode_one_more)
    show ?thesis
    proof (cases "length (buffer st0) < STRUCT_HEADER_LENGTH")
      case True
      with "1.prems" d Dec_Skip show ?thesis by (simp add: next_event.simps [of E st])
    next
      case False
      with "1.prems" d Dec_Skip have "next_event E st0 = (g, st1)"
        by (simp add: next_event.simps [of E st])
      from "1.IH" [OF d [symmetric] Dec_Skip False this "1.prems"(2)]
      have "next_event E (received x st0) = (g, received x st1)" .
      with dx False show ?thesis
        by (simp add: next_event.simps [of E "received x st"])
    qed
  qed
qed

lemma next_event_stop_more:
  "next_event E st = (Gen_Stop, st1) \<Longrightarrow>
     next_event E (received x st) = next_event E (received x st1)"
proof (induction E st arbitrary: st1 rule: next_event.induct)
  case (1 E st)
  obtain d st0 where d: "decode_one E st = (d, st0)"
    by (cases "decode_one E st")
  show ?case
  proof (cases d)
    case Dec_Return
    with d have "st0 = st" by (simp add: decode_one_return)
    with "1.prems" d Dec_Return show ?thesis by (simp add: next_event.simps [of E st])
  next
    case (Dec_Raise err)
    with "1.prems" d show ?thesis by (simp add: next_event.simps [of E st])
  next
    case (Dec_Yield e)
    with "1.prems" d show ?thesis by (simp add: next_event.simps [of E st])
  next
    case Dec_Skip
    with d have dx: "decode_one E (received x st) = (Dec_Skip, received x st0)"
      by (simp add: decode_one_more)
    show ?thesis
    proof (cases "length (buffer st0) < STRUCT_HEADER_LENGTH")
      case True
      with "1.prems" d Dec_Skip have st1: "st1 = st0" by (simp add: next_event.simps [of E st])
      show ?thesis
      proof (cases "length (buffer (received x st0)) < STRUCT_HEADER_LENGTH")
        case True
        with dx st1 show ?thesis
          by (simp add: next_event.simps [of E "received x st"] next_event_short)
      next
        case False
        with dx st1 show ?thesis
          by (simp add: next_event.simps [of E "received x st"])
      qed
    next
      case False
      with "1.prems" d Dec_Skip have "next_event E st0 = (Gen_Stop, st1)"
        by (simp add: next_event.simps [of E st])
      from "1.IH" [OF d [symmetric] Dec_Skip False this]
      have "next_event E (received x st0) = next_event E (received x st1)" .
      with dx False show ?thesis
        by (simp add: next_event.simps [of E "received x st"])
    qed
  qed
qed

lemma next_event_stop_again:
  "next_event E st = (Gen_Stop, st1) \<Longrightarrow> next_event E st1 = (Gen_Stop, st1)"
  using next_event_stop_more [of E st st1 "[]"] by simp


lemma run_generator_short:
  "length (buffer st) < STRUCT_HEADER_LENGTH \<Longrightarrow> run_generator E st = ([], Ok (), st)"
  by (simp add: run_generator.simps [of E st] next_event_short)

lemma run_generator_cong:
  "next_event E st = next_event E st' \<Longrightarrow> run_generator E st = run_generator E st'"
  by (simp add: run_generator.simps [of E st] run_generator.simps [of E st'])

lemma run_generator_more:
  "run_generator E st = (es, r, st1) \<Longrightarrow>
     run_generator E (received x st) =
       (case r of
          Raise err \<Rightarrow> (es, Raise err, received x st1)
        | Ok u \<Rightarrow>
            (let (es', r', st2) = run_generator E (received x st1)
             in (es @ es', r', st2)))"
proof (induction E st arbitrary: es r st1 rule: run_generator.induct)
  case (1 E st)
  obtain g st0 where g: "next_event E st = (g, st0)"
    by (cases "next_event E st")
  show ?case
  proof (cases g)
    case Gen_Stop
    with "1.prems" g have "es = []" "r = Ok ()" "st1 = st0"
      by (simp_all add: run_generator.simps [of E st])
    moreover from g Gen_Stop
    have "run_generator E (received x st) = run_generator E (received x st0)"
      by (intro run_generator_cong next_event_stop_more) simp
    ultimately show ?thesis by (simp split: prod.splits)
  next
    case (Gen_Raise err)
    with "1.prems" g have "es = []" "r = Raise err" "st1 = st0"
      by (simp_all add: run_generator.simps [of E st])
    moreover from g Gen_Raise
    have "next_event E (received x st) = (Gen_Raise err, received x st0)"
      by (simp add: next_event_more)
    ultimately show ?thesis by (simp add: run_generator.simps [of E "received x st"])
  next
    case (Gen_Yield e)
    with g have gx: "next_event E (received x st) = (Gen_Yield e, received x st0)"
      by (simp add: next_event_more)
    show ?thesis
    proof (cases "length (buffer st0) < STRUCT_HEADER_LENGTH")
      case True
      with "1.prems" g Gen_Yield have *: "es = [e]" "r = Ok ()" "st1 = st0"
        by (simp_all add: run_generator.simps [of E st])
      show ?thesis
      proof (cases "length (buffer (received x st0)) < STRUCT_HEADER_LENGTH")
        case True
        with gx * show ?thesis
          by (simp add: run_generator.simps [of E "received x st"] run_generator_short)
      next
        case False
        with gx * show ?thesis
          by (simp add: run_generator.simps [of E "received x st"] split: prod.splits)
      qed
    next
      case False
      obtain es0 r0 st2 where rest: "run_generator E st0 = (es0, r0, st2)"
        by (cases "run_generator E st0") auto
      with "1.prems" g Gen_Yield False have *: "es = e # es0" "r = r0" "st1 = st2"
        by (simp_all add: run_generator.simps [of E st])
      note IH = "1.IH" [OF g [symmetric] Gen_Yield False rest]
      from False have "\<not> length (buffer (received x st0)) < STRUCT_HEADER_LENGTH" by simp
      with gx IH * show ?thesis
        by (simp add: run_generator.simps [of E "received x st"] split: prod.splits result.splits)
    qed
  qed
qed

lemma run_generator_idle:
  "run_generator E st = (es, Ok u, st1) \<Longrightarrow> run_generator E st1 = ([], Ok (), st1)"
proof (induction E st arbitrary: es st1 rule: run_generator.induct)
  case (1 E st)
  obtain g st0 where g: "next_event E st = (g, st0)"
    by (cases "next_event E st")
  show ?case
  proof (cases g)
    case Gen_Stop
    with "1.prems" g have "st1 = st0" by (simp add: run_generator.simps [of E st])
    moreover from g Gen_Stop have "next_event E st0 = (Gen_Stop, st0)"
      by (simp add: next_event_stop_again)
    ultimately show ?thesis
      by (simp add: run_generator.simps [of E st0])
  next
    case (Gen_Raise err)
    with "1.prems" g show ?thesis by (simp add: run_generator.simps [of E st])
  next
    case (Gen_Yield e)
    show ?thesis
    proof (cases "length (buffer st0) < STRUCT_HEADER_LENGTH")
      case True
      with "1.prems" g Gen_Yield have "st1 = st0" by (simp add: run_generator.simps [of E st])
      with True show ?thesis by (simp add: run_generator_short)
    next
      case False
      obtain es0 r0 st2 where rest: "run_generator E st0 = (es0, r0, st2)"
        by (cases "run_generator E st0") auto
      with "1.prems" g Gen_Yield False have "r0 = Ok u" "st1 = st2"
        by (simp_all add: run_generator.simps [of E st])
      with "1.IH" [OF g [symmetric] Gen_Yield False] rest show ?thesis by simp
    qed
  qed
qed

lemma handle_inotify_event_run:
  "run_generator E st = ([], Ok (), st) \<Longrightarrow>
     handle_inotify_event E b st = run_generator E (received b st)"
  by (simp add: handle_inotify_event_def received_def)

lemma feed_concat:
  "run_generator E st = ([], Ok (), st) \<Longrightarrow> feed E chunks st = (es, r, st1) \<Longrightarrow>
     \<exists>st2. handle_inotify_event E (concat chunks) st = (es, r, st2) \<and> (r = Ok () \<longrightarrow> st2 = st1)"
proof (induction chunks arbitrary: st es r st1)
  case Nil
  then show ?case by (simp add: handle_inotify_event_def)
next
  case (Cons b bs)
  obtain es0 r0 st0 where h: "run_generator E (received b st) = (es0, r0, st0)"
    by (cases "run_generator E (received b st)") auto
  have whole: "handle_inotify_event E (concat (b # bs)) st
      = run_generator E (received (concat bs) (received b st))"
    using Cons.prems(1) by (simp add: handle_inotify_event_run received_append)
  show ?case
  proof (cases r0)
    case (Raise err)
    with h Cons.prems have "es = es0" "r = Raise err"
      by (simp_all add: handle_inotify_event_run)
    with run_generator_more [OF h, of "concat bs"] Raise whole show ?thesis by simp
  next
    case (Ok u)
    with h have idle: "run_generator E st0 = ([], Ok (), st0)"
      by (simp add: run_generator_idle)
    obtain es' r' st' where f: "feed E bs st0 = (es', r', st')"
      by (cases "feed E bs st0") auto
    with h Ok Cons.prems have *: "es = es0 @ es'" "r = r'" "st1 = st'"
      by (simp_all add: handle_inotify_event_run)
    from Cons.IH [OF idle f] obtain st2 where
      st2: "handle_inotify_event E (concat bs) st0 = (es', r', st2)" "r' = Ok () \<longrightarrow> st2 = st'"
      by blast
    from st2(1) idle have "run_generator E (received (concat bs) st0) = (es', r', st2)"
      by (simp add: handle_inotify_event_run)
    with run_generator_more [OF h, of "concat bs"] Ok whole * st2(2) show ?thesis by simp
  qed
qed


lemma ascii_decode_examples:
  "ascii_decode [97, 98] = Some ''ab''" "ascii_decode [100] = Some ''d''"
  by code_simp+

lemmas decoder_eval = handle_inotify_event_def run_generator.simps next_event.simps
  decode_one_def unpack_header_def le32_def STRUCT_HEADER_LENGTH_def get_event_names_def
  rstrip_nul_def example_env_def example_state_def add_watch_def new_inotify_def
  example_record_1_def example_record_2_def example_event_1_def example_event_2_def
  fresh_id_def ids_of_def Let_def ascii_decode_examples

text \<open>
  Claim C4. Decoding is transactional per record. When the buffer with the newly read
  bytes holds less than one header, \<^verbatim>\<open>_handle_inotify_event\<close> yields no event and keeps
  every byte. When it holds a header but less than the header plus the name length that
  the header declares, it yields no event and the buffer is exactly the old buffer with
  the new bytes, the header included; it returns normally, or, when the mask of that
  header is not in the lookup table, raises the \<^verbatim>\<open>AssertionError\<close> of \<^verbatim>\<open>_get_event_names\<close>.
\<close>

theorem decoder_transactional:
  "(length (buffer st @ b) < STRUCT_HEADER_LENGTH \<longrightarrow>
      handle_inotify_event E b st = ([], Ok (), st\<lparr>buffer := buffer st @ b\<rparr>))
   \<and> (STRUCT_HEADER_LENGTH \<le> length (buffer st @ b)
       \<and> length (buffer st @ b)
           < STRUCT_HEADER_LENGTH + len (unpack_header (take STRUCT_HEADER_LENGTH (buffer st @ b))) \<longrightarrow>
      handle_inotify_event E b st =
        ([],
         if b \<noteq> [] \<and> get_event_names E
               (mask (unpack_header (take STRUCT_HEADER_LENGTH (buffer st @ b)))) = None
         then Raise AssertionError else Ok (),
         st\<lparr>buffer := buffer st @ b\<rparr>))"
proof (intro conjI impI)
  assume "length (buffer st @ b) < STRUCT_HEADER_LENGTH"
  then show "handle_inotify_event E b st = ([], Ok (), st\<lparr>buffer := buffer st @ b\<rparr>)"
    by (simp add: handle_inotify_event_def run_generator_short)
next
  let ?st = "st\<lparr>buffer := buffer st @ b\<rparr>"
  let ?h = "unpack_header (take STRUCT_HEADER_LENGTH (buffer st @ b))"
  assume a: "STRUCT_HEADER_LENGTH \<le> length (buffer st @ b)
       \<and> length (buffer st @ b) < STRUCT_HEADER_LENGTH + len ?h"
  then have d: "decode_one E ?st =
      (case get_event_names E (mask ?h) of None \<Rightarrow> Dec_Raise AssertionError | Some n \<Rightarrow> Dec_Return, ?st)"
    by (simp add: decode_one_def Let_def split: option.splits)
  have "run_generator E ?st =
      ([], if get_event_names E (mask ?h) = None then Raise AssertionError else Ok (), ?st)"
    by (cases "get_event_names E (mask ?h)")
       (simp_all add: run_generator.simps [of E ?st] next_event.simps [of E ?st] d)
  then show "handle_inotify_event E b st =
        ([], if b \<noteq> [] \<and> get_event_names E (mask ?h) = None
         then Raise AssertionError else Ok (), ?st)"
    by (simp add: handle_inotify_event_def)
qed

theorem decoder_transactional_witness:
  "handle_inotify_event example_env (take 5 example_record_1) example_state
     = ([], Ok (), example_state\<lparr>buffer := take 5 example_record_1\<rparr>)
   \<and> handle_inotify_event example_env (take 18 example_record_1) example_state
     = ([], Ok (), example_state\<lparr>buffer := take 18 example_record_1\<rparr>)"
proof -
  have b: "buffer example_state = []"
    by (simp add: decoder_eval)
  have 1: "length (buffer example_state @ take 5 example_record_1) < STRUCT_HEADER_LENGTH"
    by (simp add: b example_record_1_def STRUCT_HEADER_LENGTH_def)
  have 2: "STRUCT_HEADER_LENGTH \<le> length (buffer example_state @ take 18 example_record_1)
       \<and> length (buffer example_state @ take 18 example_record_1)
           < STRUCT_HEADER_LENGTH + len (unpack_header (take STRUCT_HEADER_LENGTH
               (buffer example_state @ take 18 example_record_1)))"
    by (simp add: b example_record_1_def STRUCT_HEADER_LENGTH_def unpack_header_def le32_def)
  have 3: "get_event_names example_env (mask (unpack_header (take STRUCT_HEADER_LENGTH
               (buffer example_state @ take 18 example_record_1)))) \<noteq> None"
    by (simp add: b example_record_1_def STRUCT_HEADER_LENGTH_def unpack_header_def le32_def
          get_event_names_def example_env_def)
  note t1 = decoder_transactional [of example_state "take 5 example_record_1" example_env,
      THEN conjunct1, rule_format, OF 1]
  note t2 = decoder_transactional [of example_state "take 18 example_record_1" example_env,
      THEN conjunct2, rule_format, OF 2]
  from t2 3 have t3: "handle_inotify_event example_env (take 18 example_record_1) example_state
      = ([], Ok (), example_state\<lparr>buffer := buffer example_state @ take 18 example_record_1\<rparr>)"
    by (simp only: simp_thms if_False)
  from t1 t3 show ?thesis
    by (simp only: b append_Nil simp_thms)
qed

text \<open>
  Claim C3. Decoder completeness. Starting from an empty buffer, feeding any list of
  byte chunks to \<^verbatim>\<open>_handle_inotify_event\<close> one read after the other yields the same events
  in the same order, and ends the same way, as feeding their concatenation in one read;
  when no exception ends the feeding, the retained buffer is the same too. This holds
  for every byte string, so for every concatenation of well-formed records and every way
  of cutting it.
\<close>

theorem decoder_chunking:
  assumes "buffer st = []"
  shows "fst (handle_inotify_event E (concat chunks) st) = fst (feed E chunks st)
       \<and> fst (snd (handle_inotify_event E (concat chunks) st)) = fst (snd (feed E chunks st))
       \<and> (fst (snd (feed E chunks st)) = Ok () \<longrightarrow>
            snd (snd (handle_inotify_event E (concat chunks) st)) = snd (snd (feed E chunks st)))"
proof -
  from assms have idle: "run_generator E st = ([], Ok (), st)"
    by (simp add: run_generator_short STRUCT_HEADER_LENGTH_def)
  obtain es r st1 where f: "feed E chunks st = (es, r, st1)"
    by (cases "feed E chunks st") auto
  from feed_concat [OF idle f] f show ?thesis by auto
qed

lemma example_chunks_feed:
  "fst (feed example_env example_chunks example_state) = [example_event_1, example_event_2]"
  by (simp add: example_chunks_def decoder_eval)

theorem decoder_chunking_witness:
  "buffer example_state = []
   \<and> concat example_chunks = example_record_1 @ example_record_2
   \<and> fst (feed example_env example_chunks example_state) = [example_event_1, example_event_2]
   \<and> fst (handle_inotify_event example_env (example_record_1 @ example_record_2) example_state)
       = [example_event_1, example_event_2]"
proof -
  have b: "buffer example_state = []"
    by (simp add: decoder_eval)
  have c: "concat example_chunks = example_record_1 @ example_record_2"
    by (simp add: example_chunks_def)
  from decoder_chunking [OF b, of example_env example_chunks] b c example_chunks_feed
  show ?thesis by simp
qed

section \<open>The event source: properties\<close>

lemma ascii_decode_Nil: "ascii_decode [] = Some []"
  by (simp add: ascii_decode_def)

lemmas source_eval = event_gen_def iteration_def
  for_decoded.simps read_clock_def consume_def plain_consumer_def
  filter_rejects_def timed_out_def ev_type_names_def DEFAULT_TERMINAL_EVENTS_def
  example_params_def stop_all_params_def example_record_overflow_def
  example_event_overflow_def ascii_decode_Nil

lemma check_type_names_prefix:
  "\<forall>k\<in>set pre. \<not> filter_rejects P k e \<and> k \<notin> set (terminal_events P) \<Longrightarrow>
     check_type_names P e (pre @ rest) = check_type_names P e rest"
  by (induction pre) simp_all

lemma check_type_names_deliver:
  "\<forall>k\<in>set ns. \<not> filter_rejects P k e \<and> k \<notin> set (terminal_events P) \<Longrightarrow>
     check_type_names P e ns = Deliver"
  using check_type_names_prefix [of ns P e "[]"] by simp

lemma example_next_events:
  "next_event example_env (received example_record_1 example_state)
     = (Gen_Yield example_event_1, example_state)"
  "next_event example_env (received example_record_2 example_state)
     = (Gen_Yield example_event_2, example_state)"
  "next_event example_env (received example_record_overflow example_state)
     = (Gen_Yield example_event_overflow, example_state)"
  by (simp_all add: received_def decoder_eval example_record_overflow_def
        example_event_overflow_def ascii_decode_Nil)

text \<open>
  A loop of \<^verbatim>\<open>event_gen\<close> that is left otherwise than by running to its end leaves every
  loop around it the same way: nothing more is decoded, polled or yielded.
\<close>

lemma for_ready_ends:
  "for_decoded E P k (st\<lparr>buffer := buffer st @ b\<rparr>) = (ys, s, st1) \<Longrightarrow> s \<noteq> Running \<Longrightarrow>
     b \<noteq> [] \<Longrightarrow> get_event_names E event_type \<noteq> None \<Longrightarrow>
     for_ready E P k ((fd, event_type, b) # rest) st = (ys, s, st1)"
  by (cases s) auto

lemma iteration_ends:
  "for_ready E P k events st = (ys, s, st1) \<Longrightarrow> s \<noteq> Running \<Longrightarrow>
     iteration E P k (Poll_Events events) st = (ys, s, st1)"
  by (cases s) (simp_all add: iteration_def)

lemma while_true_ends:
  "iteration E P k p st = (ys, s, st1) \<Longrightarrow> s \<noteq> Running \<Longrightarrow>
     while_true E P k (p # ps) st = (ys, s, st1)"
  by (cases s) simp_all

text \<open>
  Claim C1, as the code has it. For a decoded event, \<^verbatim>\<open>event_gen\<close> goes through the kinds in
  order and, at each kind, asks the filter first and the terminal kinds second. At the
  first kind that the filter rejects or that is terminal: if the filter rejects it, the
  stream ends normally with that kind and the event recorded, also when the kind is
  terminal; otherwise the kind is terminal and the stream ends with the terminal
  exception carrying the kind and the event. In both cases the event is not yielded. An
  event with no such kind is yielded.
\<close>

theorem kinds_checked_in_order:
  assumes "next_event E st = (Gen_Yield e, st1)"
  shows "(\<forall>pre type_name post.
            ev_type_names e = pre @ type_name # post
            \<and> (\<forall>k\<in>set pre. \<not> filter_rejects P k e \<and> k \<notin> set (terminal_events P))
            \<and> filter_rejects P type_name e \<longrightarrow>
            for_decoded E P k st =
              ([], Filter_stopped, (stamp E st1)\<lparr>last_success_return := Some (type_name, e)\<rparr>))
       \<and> (\<forall>pre type_name post.
            ev_type_names e = pre @ type_name # post
            \<and> (\<forall>k\<in>set pre. \<not> filter_rejects P k e \<and> k \<notin> set (terminal_events P))
            \<and> \<not> filter_rejects P type_name e \<and> type_name \<in> set (terminal_events P) \<longrightarrow>
            for_decoded E P k st =
              ([], Raised (TerminalEventException type_name e), stamp E st1))
       \<and> ((\<forall>k\<in>set (ev_type_names e). \<not> filter_rejects P k e \<and> k \<notin> set (terminal_events P)) \<longrightarrow>
            (\<exists>ys s st2. for_decoded E P k st = (Some e # ys, s, st2)))"
proof (intro conjI allI impI)
  fix pre type_name post
  assume a: "ev_type_names e = pre @ type_name # post
            \<and> (\<forall>k\<in>set pre. \<not> filter_rejects P k e \<and> k \<notin> set (terminal_events P))
            \<and> filter_rejects P type_name e"
  then have "check_type_names P e (ev_type_names e) = Filter_stop type_name"
    by (simp add: check_type_names_prefix)
  with assms show "for_decoded E P k st =
      ([], Filter_stopped, (stamp E st1)\<lparr>last_success_return := Some (type_name, e)\<rparr>)"
    by (simp add: for_decoded.simps [of E P k st] read_clock_def stamp_def Let_def)
next
  fix pre type_name post
  assume a: "ev_type_names e = pre @ type_name # post
            \<and> (\<forall>k\<in>set pre. \<not> filter_rejects P k e \<and> k \<notin> set (terminal_events P))
            \<and> \<not> filter_rejects P type_name e \<and> type_name \<in> set (terminal_events P)"
  then have "check_type_names P e (ev_type_names e) = Terminal type_name"
    by (simp add: check_type_names_prefix)
  with assms show "for_decoded E P k st =
      ([], Raised (TerminalEventException type_name e), stamp E st1)"
    by (simp add: for_decoded.simps [of E P k st] read_clock_def stamp_def Let_def)
next
  assume "\<forall>k\<in>set (ev_type_names e). \<not> filter_rejects P k e \<and> k \<notin> set (terminal_events P)"
  then have "check_type_names P e (ev_type_names e) = Deliver"
    by (rule check_type_names_deliver)
  with assms show "\<exists>ys s st2. for_decoded E P k st = (Some e # ys, s, st2)"
    by (auto simp: for_decoded.simps [of E P k st] read_clock_def Let_def
             split: prod.splits result.splits)
qed


theorem kinds_checked_in_order_witness:
  "for_decoded example_env isdir_stop_params plain_consumer
       (received example_record_2 example_state)
     = ([], Filter_stopped,
        (stamp example_env example_state)
          \<lparr>last_success_return := Some (''IN_ISDIR'', example_event_2)\<rparr>)
   \<and> for_decoded example_env example_params plain_consumer
       (received example_record_overflow example_state)
     = ([], Raised (TerminalEventException ''IN_Q_OVERFLOW'' example_event_overflow),
        stamp example_env example_state)
   \<and> (\<exists>ys s st2. for_decoded example_env example_params plain_consumer
       (received example_record_1 example_state) = (Some example_event_1 # ys, s, st2))"
proof -
  note t2 = kinds_checked_in_order [OF example_next_events(2), of isdir_stop_params plain_consumer,
      THEN conjunct1, rule_format, of "[''IN_CREATE'']" "''IN_ISDIR''" "[]"]
  note to = kinds_checked_in_order [OF example_next_events(3), of example_params plain_consumer,
      THEN conjunct2, THEN conjunct1, rule_format, of "[]" "''IN_Q_OVERFLOW''" "[]"]
  note t1 = kinds_checked_in_order [OF example_next_events(1), of example_params plain_consumer,
      THEN conjunct2, THEN conjunct2, THEN mp]
  have h2: "ev_type_names example_event_2 = [''IN_CREATE''] @ ''IN_ISDIR'' # []
      \<and> (\<forall>k\<in>set [''IN_CREATE'']. \<not> filter_rejects isdir_stop_params k example_event_2
            \<and> k \<notin> set (terminal_events isdir_stop_params))
      \<and> filter_rejects isdir_stop_params ''IN_ISDIR'' example_event_2"
    by (simp add: ev_type_names_def example_event_2_def filter_rejects_def isdir_stop_params_def
          example_params_def DEFAULT_TERMINAL_EVENTS_def)
  have ho: "ev_type_names example_event_overflow = [] @ ''IN_Q_OVERFLOW'' # []
      \<and> (\<forall>k\<in>set []. \<not> filter_rejects example_params k example_event_overflow
            \<and> k \<notin> set (terminal_events example_params))
      \<and> \<not> filter_rejects example_params ''IN_Q_OVERFLOW'' example_event_overflow
      \<and> ''IN_Q_OVERFLOW'' \<in> set (terminal_events example_params)"
    by (simp add: ev_type_names_def example_event_overflow_def filter_rejects_def
          example_params_def DEFAULT_TERMINAL_EVENTS_def)
  have h1: "\<forall>k\<in>set (ev_type_names example_event_1).
      \<not> filter_rejects example_params k example_event_1 \<and> k \<notin> set (terminal_events example_params)"
    by (simp add: ev_type_names_def example_event_1_def filter_rejects_def
          example_params_def DEFAULT_TERMINAL_EVENTS_def)
  from t2 [OF h2] to [OF ho] t1 [OF h1] show ?thesis by blast
qed

text \<open>
  The claim as it was stated fails: a queue overflow that the filter rejects ends the
  stream by the filter's normal stop, not by the terminal exception.
\<close>

theorem terminal_first_counterexample:
  "''IN_Q_OVERFLOW'' \<in> set (terminal_events stop_all_params)
   \<and> filter_rejects stop_all_params ''IN_Q_OVERFLOW'' example_event_overflow
   \<and> fst (event_gen example_env stop_all_params plain_consumer
          [Poll_Events [(3, 1, example_record_overflow)]] example_state) = []
   \<and> fst (snd (event_gen example_env stop_all_params plain_consumer
          [Poll_Events [(3, 1, example_record_overflow)]] example_state)) = Filter_stopped
   \<and> last_success_return (snd (snd (event_gen example_env stop_all_params plain_consumer
          [Poll_Events [(3, 1, example_record_overflow)]] example_state)))
       = Some (''IN_Q_OVERFLOW'', example_event_overflow)"
  by (simp add: source_eval decoder_eval)

lemma for_decoded_items:
  "for_decoded E P k st = (ys, s, st1) \<Longrightarrow> \<exists>evs. ys = map Some evs"
proof (induction E P k st arbitrary: ys s st1 rule: for_decoded.induct)
  case (1 E P k st)
  obtain g st0 where g: "next_event E st = (g, st0)"
    by (cases "next_event E st")
  show ?case
  proof (cases g)
    case Gen_Stop
    with "1.prems" g show ?thesis by (simp add: for_decoded.simps [of E P k st])
  next
    case (Gen_Raise err)
    with "1.prems" g show ?thesis by (simp add: for_decoded.simps [of E P k st])
  next
    case (Gen_Yield e)
    obtain now st2 where c: "read_clock E st0 = (now, st2)"
      by (cases "read_clock E st0")
    let ?st3 = "st2\<lparr>last_hit_s := now\<rparr>"
    show ?thesis
    proof (cases "check_type_names P e (ev_type_names e)")
      case (Filter_stop tn)
      with "1.prems" g Gen_Yield c show ?thesis
        by (simp add: for_decoded.simps [of E P k st])
    next
      case (Terminal tn)
      with "1.prems" g Gen_Yield c show ?thesis
        by (simp add: for_decoded.simps [of E P k st])
    next
      case Deliver
      obtain r st4 where k: "consume k (Some e) ?st3 = (r, st4)"
        by (cases "consume k (Some e) ?st3")
      show ?thesis
      proof (cases r)
        case (Raise err)
        with "1.prems" g Gen_Yield c Deliver k have "ys = map Some [e]"
          by (simp add: for_decoded.simps [of E P k st])
        then show ?thesis by blast
      next
        case (Ok u)
        show ?thesis
        proof (cases "length (buffer st4) < STRUCT_HEADER_LENGTH")
          case True
          with "1.prems" g Gen_Yield c Deliver k Ok have "ys = map Some [e]"
            by (simp add: for_decoded.simps [of E P k st])
          then show ?thesis by blast
        next
          case False
          obtain zs s' st5 where rest: "for_decoded E P k st4 = (zs, s', st5)"
            by (cases "for_decoded E P k st4") auto
          from "1.IH" [OF g [symmetric] Gen_Yield refl c [symmetric] refl Deliver
              k [symmetric] Ok False rest]
          obtain evs where "zs = map Some evs" by blast
          moreover from "1.prems" g Gen_Yield c Deliver k Ok False rest
          have "ys = Some e # zs"
            by (simp add: for_decoded.simps [of E P k st])
          ultimately have "ys = map Some (e # evs)" by simp
          then show ?thesis by blast
        qed
      qed
    qed
  qed
qed


lemma for_ready_items:
  "for_ready E P k events st = (ys, s, st1) \<Longrightarrow> \<exists>evs. ys = map Some evs"
proof (induction events arbitrary: st ys s st1)
  case Nil
  then show ?case by simp
next
  case (Cons x events)
  obtain fd event_type b where x: "x = (fd, event_type, b)"
    by (cases x) auto
  show ?case
  proof (cases "get_event_names E event_type")
    case None
    with Cons.prems x show ?thesis by simp
  next
    case (Some names)
    obtain ys0 s0 st0 where h:
      "(if b = [] then ([], Running, st) else for_decoded E P k (st\<lparr>buffer := buffer st @ b\<rparr>))
         = (ys0, s0, st0)"
      by (cases "if b = [] then ([], Running, st)
                 else for_decoded E P k (st\<lparr>buffer := buffer st @ b\<rparr>)") auto
    then obtain evs0 where evs0: "ys0 = map Some evs0"
      by (cases "b = []") (auto dest: for_decoded_items)
    show ?thesis
    proof (cases "s0 = Running")
      case False
      with Cons.prems x Some h have "ys = ys0"
        by (cases s0) simp_all
      with evs0 show ?thesis by blast
    next
      case True
      obtain zs s' st2 where rest: "for_ready E P k events st0 = (zs, s', st2)"
        by (cases "for_ready E P k events st0") auto
      from Cons.IH [OF rest] obtain evs where "zs = map Some evs" by blast
      moreover from Cons.prems x Some h True rest have "ys = ys0 @ zs" by simp
      ultimately have "ys = map Some (evs0 @ evs)" using evs0 by simp
      then show ?thesis by blast
    qed
  qed
qed

text \<open>
  Claim C2, as the code has it. A turn of the loop of \<^verbatim>\<open>event_gen\<close> after which the loop
  goes on yields the events of the turn and then, when \<^verbatim>\<open>yield_nones\<close> is \<^verbatim>\<open>True\<close> and the
  poll returned, exactly one \<^verbatim>\<open>None\<close>, whether or not the turn had events. It yields no
  \<^verbatim>\<open>None\<close> when \<^verbatim>\<open>yield_nones\<close> is not \<^verbatim>\<open>True\<close>, and nothing at all when the poll was
  interrupted.
\<close>

theorem idle_marker_each_turn:
  assumes "iteration E P k p st = (ys, Running, st1)"
  shows "\<exists>evs. ys = map Some evs @
           (case p of
              Poll_IOError errno \<Rightarrow> []
            | Poll_Events events \<Rightarrow> if yield_nones P then [None] else [])"
proof (cases p)
  case (Poll_IOError errno)
  with assms have "ys = []"
    by (auto simp: iteration_def Let_def split: if_splits prod.splits)
  with Poll_IOError show ?thesis by simp
next
  case (Poll_Events events)
  obtain ys0 s0 st0 where f: "for_ready E P k events st = (ys0, s0, st0)"
    by (cases "for_ready E P k events st") auto
  then obtain evs where evs: "ys0 = map Some evs"
    by (auto dest: for_ready_items)
  from assms Poll_Events f have "ys = ys0 @ (if yield_nones P then [None] else [])"
    by (cases s0)
       (auto simp: iteration_def Let_def split: if_splits prod.splits result.splits)
  with evs Poll_Events show ?thesis by auto
qed

theorem idle_marker_each_turn_witness:
  "fst (snd (iteration example_env example_params plain_consumer
               (Poll_Events [(3, 1, example_record_1)]) example_state)) = Running
   \<and> (\<exists>evs. fst (iteration example_env example_params plain_consumer
               (Poll_Events [(3, 1, example_record_1)]) example_state) = map Some evs @ [None])
   \<and> fst (snd (iteration example_env example_params plain_consumer
               (Poll_Events []) example_state)) = Running
   \<and> (\<exists>evs. fst (iteration example_env example_params plain_consumer
               (Poll_Events []) example_state) = map Some evs @ [None])"
proof -
  obtain ys st1 where 1: "iteration example_env example_params plain_consumer
               (Poll_Events [(3, 1, example_record_1)]) example_state = (ys, Running, st1)"
    by (simp add: iteration_def for_decoded.simps read_clock_def consume_def
          plain_consumer_def filter_rejects_def timed_out_def
          ev_type_names_def DEFAULT_TERMINAL_EVENTS_def example_params_def decoder_eval)
  obtain zs st2 where 2: "iteration example_env example_params plain_consumer
               (Poll_Events []) example_state = (zs, Running, st2)"
    by (simp add: iteration_def consume_def plain_consumer_def timed_out_def example_params_def)
  have y: "yield_nones example_params" by (simp add: example_params_def)
  from idle_marker_each_turn [OF 1] idle_marker_each_turn [OF 2] 1 2 y
  show ?thesis by simp
qed


text \<open>
  The claim as it was stated fails: a turn that decoded a real event yields the event
  and then the idle marker.
\<close>

theorem idle_marker_counterexample:
  "fst (event_gen example_env example_params plain_consumer
          [Poll_Events [(3, 1, example_record_1)]] example_state)
     = [Some example_event_1, None]"
  by (simp add: source_eval decoder_eval)

section \<open>The tree synchronizer: properties\<close>

lemma watch_new_directory_rm_calls:
  "rm_calls (oscalls (snd (watch_new_directory E tmask ign m p st))) = rm_calls (oscalls st)"
  by (auto simp: watch_new_directory_def path_exists_def add_watch_def Let_def rm_calls_def
           split: option.splits)

lemma remove_watch_superficial_calls:
  "oscalls (snd (remove_watch E p Sup_True st)) = oscalls st"
  by (auto simp: remove_watch_def remove_watch_inner_def Let_def split: option.splits)



lemmas tree_eval = tree_housekeeping_def watch_new_directory_def unwatch_old_directory_def
  path_exists_def os_path_join_def ev_header_def ev_path_def ev_filename_def
  example_dir_event_def example_deleted_dir_def example_moved_dir_def
  example_moved_deleted_dir_def example_created_dir_def example_tree_state_def
  example_tree_mask_def base_tree_mask_def failing_rm_env_def missing_dir_env_def
  registry_eval

text \<open>
  Claim C10. When the mask of a directory event has both the delete flag and the
  moved-from flag, the loop body of \<^verbatim>\<open>_BaseTree.event_gen\<close> does, after its first
  statement, only the delete handling \<^verbatim>\<open>remove_watch(full_path, superficial=True)\<close>: the
  branch of the moved-from flag is not run, and no call to \<^verbatim>\<open>inotify_rm_watch\<close> is made.
\<close>

theorem delete_wins_over_moved_from:
  assumes "mask (ev_header e) AND IN_ISDIR E \<noteq> 0"
    and "mask (ev_header e) AND IN_DELETE E \<noteq> 0"
    and "mask (ev_header e) AND IN_MOVED_FROM E \<noteq> 0"
  shows "tree_housekeeping E tmask ign (Some e) st =
           (case watch_new_directory E tmask ign (mask (ev_header e))
                   (os_path_join (ev_path e) (ev_filename e)) st of
              (Raise err, s) \<Rightarrow> (Raise err, s)
            | (Ok u, s) \<Rightarrow> remove_watch E (os_path_join (ev_path e) (ev_filename e)) Sup_True s)
       \<and> rm_calls (oscalls (snd (tree_housekeeping E tmask ign (Some e) st)))
           = rm_calls (oscalls st)"
proof -
  let ?full = "os_path_join (ev_path e) (ev_filename e)"
  let ?W = "watch_new_directory E tmask ign (mask (ev_header e)) ?full st"
  have eq: "tree_housekeeping E tmask ign (Some e) st =
           (case ?W of
              (Raise err, s) \<Rightarrow> (Raise err, s)
            | (Ok u, s) \<Rightarrow> remove_watch E ?full Sup_True s)"
    using assms(1,2)
    by (simp add: tree_housekeeping_def unwatch_old_directory_def Let_def
             split: prod.splits result.splits)
  obtain r s where w: "?W = (r, s)" by (cases ?W)
  with watch_new_directory_rm_calls [of E tmask ign "mask (ev_header e)" ?full st]
  have "rm_calls (oscalls s) = rm_calls (oscalls st)" by simp
  with eq w have "rm_calls (oscalls (snd (tree_housekeeping E tmask ign (Some e) st)))
           = rm_calls (oscalls st)"
    by (cases r) (simp_all add: remove_watch_superficial_calls)
  with eq show ?thesis by simp
qed


theorem delete_wins_over_moved_from_witness:
  "tree_housekeeping example_env example_tree_mask False (Some example_moved_deleted_dir)
       example_tree_state
     = remove_watch example_env ''/a/d'' Sup_True example_tree_state
   \<and> rm_calls (oscalls (snd (tree_housekeeping example_env example_tree_mask False
         (Some example_moved_deleted_dir) example_tree_state)))
       = rm_calls (oscalls example_tree_state)"
proof -
  have f: "mask (ev_header example_moved_deleted_dir) AND IN_ISDIR example_env \<noteq> 0"
    "mask (ev_header example_moved_deleted_dir) AND IN_DELETE example_env \<noteq> 0"
    "mask (ev_header example_moved_deleted_dir) AND IN_MOVED_FROM example_env \<noteq> 0"
    by (simp_all add: tree_eval)
  have j: "os_path_join (ev_path example_moved_deleted_dir) (ev_filename example_moved_deleted_dir)
      = ''/a/d''"
    by (simp add: tree_eval)
  have w: "watch_new_directory example_env example_tree_mask False
      (mask (ev_header example_moved_deleted_dir)) ''/a/d'' example_tree_state
      = (Ok (), example_tree_state)"
    by (simp add: tree_eval)
  show ?thesis
    by (rule delete_wins_over_moved_from [OF f, of example_tree_mask False example_tree_state,
          unfolded j w prod.case result.case])
qed


lemma remove_watch_superficial_gone:
  "remove_watch E p Sup_True st = (Ok u, s) \<Longrightarrow> watches s p = None"
  by (auto simp: remove_watch_def remove_watch_inner_def Let_def
           split: option.splits if_splits)






text \<open>
  The two generators side by side on one read that holds the creation of the directory
  \<^verbatim>\<open>/a/d\<close> and then an event of the watch descriptor that the new directory will get.
  The tree adds the watch while the decoder is suspended at its first \<^verbatim>\<open>yield\<close>, so the
  second record is decoded with the new path; consumed without the tree, the second
  record is of an unknown descriptor and is dropped.
\<close>

lemma tree_event_gen_example:
  "fst (tree_event_gen example_env example_tree_mask False example_params
          [Poll_Events [(3, 1, example_record_2 @ example_record_3)]] example_state)
     = [Some example_event_2, Some example_event_3, None]
   \<and> fst (event_gen example_env example_params plain_consumer
          [Poll_Events [(3, 1, example_record_2 @ example_record_3)]] example_state)
     = [Some example_event_2, None]"
  by (simp add: tree_event_gen_def source_eval decoder_eval tree_housekeeping_def
        watch_new_directory_def unwatch_old_directory_def path_exists_def os_path_join_def
        ev_header_def ev_path_def ev_filename_def example_tree_mask_def base_tree_mask_def
        example_record_3_def example_event_3_def)

end
